theory Spec2Isabelle
  imports Main
begin

section \<open>iPXE scripts (src/image/script.c)\<close>

subsection \<open>Characters, C strings and the user-buffer primitives\<close>

text \<open>
  A C \<open>char\<close> is a HOL \<open>char\<close> (one byte). A \<open>const char *\<close> handed to a function is
  modelled by the chars it points to; the string it denotes ends before the first NUL.
\<close>

definition NUL :: char where
  "NUL = CHR 0x00"

definition NL :: char where
  "NL = CHR 0x0A"

text \<open>The string a NUL-terminated buffer denotes: the chars before the first NUL.\<close>

definition c_string :: "string \<Rightarrow> string" where
  "c_string buf = takeWhile (\<lambda>c. c \<noteq> NUL) buf"

text \<open>\<open>line[0]\<close> of a string: its first char, the terminating NUL when it is empty.\<close>

definition first_char :: "string \<Rightarrow> char" where
  "first_char line = (case line of [] \<Rightarrow> NUL | c # _ \<Rightarrow> c)"

text \<open>
  Modelled from the spec: \<open>memchr_user (buffer, offset, c, len)\<close> is declared in
  ipxe/uaccess.h, which is not under src/. It searches the \<open>len\<close> bytes of \<open>buffer\<close> that
  start at \<open>offset\<close> for \<open>c\<close> and returns the offset (from the start of the buffer) of the
  first one, or a negative value when there is none.
\<close>

fun memchr_from :: "string \<Rightarrow> char \<Rightarrow> nat \<Rightarrow> int" where
  "memchr_from [] c i = - 1"
| "memchr_from (b # bs) c i = (if b = c then int i else memchr_from bs c (Suc i))"

definition memchr_user :: "string \<Rightarrow> nat \<Rightarrow> char \<Rightarrow> nat \<Rightarrow> int" where
  "memchr_user buffer offset c n = memchr_from (take n (drop offset buffer)) c offset"

text \<open>
  Modelled from the spec: \<open>copy_from_user (dest, buffer, offset, len)\<close> (ipxe/uaccess.h,
  not under src/) copies the \<open>len\<close> bytes of \<open>buffer\<close> that start at \<open>offset\<close>.
\<close>

definition copy_from_user :: "string \<Rightarrow> nat \<Rightarrow> nat \<Rightarrow> string" where
  "copy_from_user buffer offset n = take n (drop offset buffer)"

text \<open>
  \<open>memcmp\<close> and \<open>strcmp\<close> of the C library: the difference of the first two bytes that
  differ (as unsigned chars), 0 when there is none. \<open>strcmp\<close> stops at a NUL; the end of
  a modelled string is its terminating NUL.
\<close>

fun memcmp :: "string \<Rightarrow> string \<Rightarrow> nat \<Rightarrow> int" where
  "memcmp (a # as) (b # bs) (Suc n) =
     (if a = b then memcmp as bs n else int (of_char a) - int (of_char b))"
| "memcmp as bs n = 0"

fun strcmp :: "string \<Rightarrow> string \<Rightarrow> int" where
  "strcmp [] [] = 0"
| "strcmp [] (b # bs) = - int (of_char b)"
| "strcmp (a # as) [] = int (of_char a)"
| "strcmp (a # as) (b # bs) =
     (if a = b then (if a = NUL then 0 else strcmp as bs)
      else int (of_char a) - int (of_char b))"

text \<open>
  Modelled from the spec: \<open>isspace\<close> (ctype.h, not under src/) is true of the white-space
  characters of the C locale: space, form feed, newline, carriage return, horizontal and
  vertical tab.
\<close>

definition isspace :: "char \<Rightarrow> bool" where
  "isspace c = (c = CHR 0x20 \<or> c = CHR 0x0C \<or> c = CHR 0x0A \<or> c = CHR 0x0D
                \<or> c = CHR 0x09 \<or> c = CHR 0x0B)"

text \<open>
  Modelled from the spec: the error numbers of errno.h, which is not under src/. They
  are non-zero integers; the POSIX numbers stand for them, and nothing below depends on
  more than their being positive.
\<close>

definition ENOENT :: int where
  "ENOENT = 2"

definition ENOEXEC :: int where
  "ENOEXEC = 8"

definition ENOTTY :: int where
  "ENOTTY = 25"

subsection \<open>Images and the execution cursor\<close>

text \<open>
  An image type is known by its name. Of \<open>struct image\<close> (ipxe/image.h) the script code
  reads \<open>data\<close> and \<open>len\<close> and writes \<open>type\<close>; \<open>len\<close> is the number of bytes of \<open>data\<close>.
  Script lengths and offsets are \<open>size_t\<close> values and stay far below its range (an
  image lies in memory beside the code), so they are natural numbers here.
\<close>

datatype image_type = Image_type string

record image =
  data :: string
  type :: "image_type option"

definition len :: "image \<Rightarrow> nat" where
  "len img = length (data img)"

definition script_image_type :: image_type where
  "script_image_type = Image_type ''script''"

text \<open>
  The static variables of script.c (\<open>script\<close>, \<open>script_offset\<close>, \<open>goto_label\<close>), the
  console that \<open>printf\<close> writes to, and \<open>world\<close>: all other state of the program (the
  image registry, the settings, ...), which only code outside script.c touches.
\<close>

record 'w state =
  script :: "image option"
  script_offset :: nat
  goto_label :: string
  console :: string
  world :: 'w

definition printf :: "string \<Rightarrow> 'w state \<Rightarrow> 'w state" where
  "printf text s = s\<lparr>console := console s @ text\<rparr>"

text \<open>
  A line processor takes the line and the state and returns a status and the new state,
  or nothing when it never returns.
\<close>

type_synonym 'w line_processor = "string \<Rightarrow> 'w state \<Rightarrow> (int \<times> 'w state) option"

subsection \<open>process_script\<close>

text \<open>
  The body of the do-while loop, and the loop test after it. Dereferencing a null
  \<open>script\<close> has no result. The walk of a script may go on forever (a \<open>goto\<close> to an
  earlier label), hence the partial function: \<open>None\<close> is a walk that does not return.
\<close>

partial_function (option) process_script_loop ::
  "'w line_processor \<Rightarrow> (int \<Rightarrow> bool) \<Rightarrow> 'w state \<Rightarrow> (int \<times> 'w state) option" where
  "process_script_loop process_line terminate s =
     (case script s of
        None \<Rightarrow> None
      | Some img \<Rightarrow>
          (let eol = memchr_user (data img) (script_offset s) NL
                       (len img - script_offset s);
               eol = (if eol < 0 then int (len img) else eol);
               n = nat (eol - int (script_offset s));
               cmdbuf = copy_from_user (data img) (script_offset s) n @ [NUL];
               s = s\<lparr>script_offset := script_offset s + (n + 1)\<rparr>
           in case process_line (c_string cmdbuf) s of
                None \<Rightarrow> None
              | Some (rc, s) \<Rightarrow>
                  if terminate rc then Some (rc, s)
                  else (case script s of
                          None \<Rightarrow> None
                        | Some img \<Rightarrow>
                            if script_offset s < len img
                            then process_script_loop process_line terminate s
                            else Some (rc, s))))"

definition process_script ::
  "'w line_processor \<Rightarrow> (int \<Rightarrow> bool) \<Rightarrow> 'w state \<Rightarrow> (int \<times> 'w state) option" where
  "process_script process_line terminate s =
     process_script_loop process_line terminate (s\<lparr>script_offset := 0\<rparr>)"

definition terminate_on_failure :: "int \<Rightarrow> bool" where
  "terminate_on_failure rc = (rc \<noteq> 0)"

definition terminate_on_success :: "int \<Rightarrow> bool" where
  "terminate_on_success rc = (rc = 0)"

subsection \<open>script_exec\<close>

text \<open>
  \<open>system\<close> (the command dispatcher), \<open>unregister_image\<close> and \<open>register_image\<close> are not
  under src/ and are parameters. \<open>system\<close> may run any command, \<open>goto\<close> and the execution
  of another script among them, so it acts on the whole state and may not return. The
  two registry functions act on \<open>world\<close>: the variables of script.c are static.
\<close>

definition script_exec_line :: "'w line_processor \<Rightarrow> 'w line_processor" where
  "script_exec_line system line s =
     (if first_char line = CHR '':'' then Some (0, s)
      else case system line s of
             None \<Rightarrow> None
           | Some (rc, s) \<Rightarrow>
               if rc \<noteq> 0
               then Some (rc, printf (''Aborting on '' @ [CHR 0x22] @ line @ [CHR 0x22, NL]) s)
               else Some (0, s))"

definition script_exec ::
  "(image \<Rightarrow> 'w \<Rightarrow> 'w) \<Rightarrow> (image \<Rightarrow> 'w \<Rightarrow> 'w) \<Rightarrow> 'w line_processor \<Rightarrow>
   image \<Rightarrow> 'w state \<Rightarrow> (int \<times> 'w state) option" where
  "script_exec unregister_image register_image system img s =
     (let s = s\<lparr>world := unregister_image img (world s)\<rparr>;
          saved_script = script s;
          saved_offset = script_offset s;
          s = s\<lparr>script := Some img\<rparr>
      in case process_script (script_exec_line system) terminate_on_failure s of
           None \<Rightarrow> None
         | Some (rc, s) \<Rightarrow>
             (let s = s\<lparr>script_offset := saved_offset\<rparr>;
                  s = s\<lparr>script := saved_script\<rparr>;
                  s = s\<lparr>world := register_image img (world s)\<rparr>
              in Some (rc, s)))"

subsection \<open>script_load\<close>

definition script_load :: "image \<Rightarrow> int \<times> image" where
  "script_load img =
     (let ipxe_magic = ''#!ipxe'' @ [NUL];
          gpxe_magic = ''#!gpxe'' @ [NUL];
          sizeof_test = length ipxe_magic - 1 + 1
      in if len img < sizeof_test then (- ENOEXEC, img)
         else
           (let test = copy_from_user (data img) 0 sizeof_test
            in if \<not> ((memcmp test ipxe_magic (sizeof_test - 1) = 0 \<or>
                       memcmp test gpxe_magic (sizeof_test - 1) = 0) \<and>
                      isspace (test ! (sizeof_test - 1)))
               then (- ENOEXEC, img)
               else (0, img\<lparr>type := Some script_image_type\<rparr>)))"

subsection \<open>The goto command\<close>

definition goto_find_label :: "'w line_processor" where
  "goto_find_label line s =
     (if first_char line \<noteq> CHR '':'' then Some (- ENOENT, s)
      else if strcmp (goto_label s) (tl line) \<noteq> 0 then Some (- ENOENT, s)
      else Some (0, s))"

text \<open>
  \<open>parse_options\<close> (ipxe/parseopt.h) is not under src/ and is a parameter: from the
  arguments it gives a status and \<open>optind\<close>, the index of the first argument that is not
  an option. What it prints when it fails is left out. An \<open>argv[optind]\<close> outside the
  arguments has no result.
\<close>

definition goto_exec ::
  "(string list \<Rightarrow> int \<times> nat) \<Rightarrow> string list \<Rightarrow> 'w state \<Rightarrow> (int \<times> 'w state) option" where
  "goto_exec parse_options argv s =
     (case parse_options argv of
        (rc, optind) \<Rightarrow>
          if rc \<noteq> 0 then Some (rc, s)
          else if script s = None
          then Some (- ENOTTY, printf (''Not in a script'' @ [NL]) s)
          else if \<not> optind < length argv then None
          else
            (let s = s\<lparr>goto_label := argv ! optind\<rparr>;
                 saved_offset = script_offset s
             in case process_script goto_find_label terminate_on_success s of
                  None \<Rightarrow> None
                | Some (rc, s) \<Rightarrow>
                    if rc \<noteq> 0 then Some (rc, s\<lparr>script_offset := saved_offset\<rparr>)
                    else Some (0, s)))"

subsection \<open>The lines of a script\<close>

text \<open>
  What the statements below are measured against. The line that starts at an offset runs
  up to the next newline, or to the end of the script when there is none. The lines of a
  script are listed with their offsets: each next line starts one past the end of the
  line before it, as long as that is inside the script. A script that ends in a newline
  has no empty last line; the empty script has one empty line.
\<close>

definition line_at :: "string \<Rightarrow> nat \<Rightarrow> string" where
  "line_at bytes off = takeWhile (\<lambda>c. c \<noteq> NL) (drop off bytes)"

function lines_at :: "string \<Rightarrow> nat \<Rightarrow> (nat \<times> string) list" where
  "lines_at bytes off =
     (off, line_at bytes off) #
     (if off + length (line_at bytes off) + 1 < length bytes
      then lines_at bytes (off + length (line_at bytes off) + 1) else [])"
  by pat_completeness auto
termination
  by (relation "measure (\<lambda>(bytes, off). length bytes - off)") auto

declare lines_at.simps [simp del]

definition script_lines :: "string \<Rightarrow> (nat \<times> string) list" where
  "script_lines bytes = lines_at bytes 0"

text \<open>
  A line declares a label when the string handed to the line processor (the line up to
  its first NUL, if it has one) is a colon followed by the label. For a line and a label
  without NUL this is \<open>l = CHR '':'' # label\<close>.
\<close>

definition is_label_line :: "string \<Rightarrow> string \<Rightarrow> bool" where
  "is_label_line label l = (c_string l = CHR '':'' # c_string label)"

text \<open>The status of \<open>goto_find_label\<close> as a function of the label and the line.\<close>

definition label_status :: "string \<Rightarrow> string \<Rightarrow> int" where
  "label_status label line =
     (if first_char line = CHR '':'' \<and> strcmp label (tl line) = 0 then 0 else - ENOENT)"

text \<open>
  The result of walking the lines \<open>ls\<close> with a line processor that leaves the state
  alone and has status \<open>f line\<close>: the walk stops at the first line whose status ends it,
  or else at the last line, with the cursor one past the end of that line.
\<close>

definition walk_result ::
  "(string \<Rightarrow> int) \<Rightarrow> (int \<Rightarrow> bool) \<Rightarrow> 'w state \<Rightarrow> (nat \<times> string) list \<Rightarrow>
   int \<times> 'w state" where
  "walk_result f terminate s ls =
     (case (case find (\<lambda>(off, l). terminate (f (c_string l))) ls of
              None \<Rightarrow> last ls | Some x \<Rightarrow> x) of
        (off, l) \<Rightarrow> (f (c_string l), s\<lparr>script_offset := off + length l + 1\<rparr>))"

subsection \<open>The visits of a walk, as a list\<close>

text \<open>
  One visit from a state: the line at the offset is handed to the line processor, in
  the state whose offset is already one past the end of the line. After a visit the
  script has more lines when the offset is below its length, and is exhausted otherwise
  (neither when no script is active: the loop test then has no result).

  \<open>is_walk process_line terminate s vs\<close>: the list \<open>vs\<close> holds, in order, what the visits
  of a walk from \<open>s\<close> return. Each visit starts in the state the one before returned;
  every visit but the last returns a status that the stop predicate refuses, with more
  lines to read; the last returns a status that the stop predicate accepts, or leaves
  the script exhausted.
\<close>

definition more_lines :: "'w state \<Rightarrow> bool" where
  "more_lines s = (case script s of None \<Rightarrow> False | Some img \<Rightarrow> script_offset s < len img)"

definition exhausted :: "'w state \<Rightarrow> bool" where
  "exhausted s = (case script s of None \<Rightarrow> False | Some img \<Rightarrow> \<not> script_offset s < len img)"

definition visit ::
  "'w line_processor \<Rightarrow> 'w state \<Rightarrow> (int \<times> 'w state) option" where
  "visit process_line s =
     (case script s of
        None \<Rightarrow> None
      | Some img \<Rightarrow>
          process_line (c_string (line_at (data img) (script_offset s)))
            (s\<lparr>script_offset :=
                 script_offset s + length (line_at (data img) (script_offset s)) + 1\<rparr>))"

fun is_walk ::
  "'w line_processor \<Rightarrow> (int \<Rightarrow> bool) \<Rightarrow> 'w state \<Rightarrow> (int \<times> 'w state) list \<Rightarrow> bool" where
  "is_walk process_line terminate s [] = False"
| "is_walk process_line terminate s ((rc, s1) # rest) =
     (visit process_line s = Some (rc, s1)
      \<and> (if rest = [] then terminate rc \<or> exhausted s1
         else \<not> terminate rc \<and> more_lines s1 \<and> is_walk process_line terminate s1 rest))"

definition has_walk ::
  "'w line_processor \<Rightarrow> (int \<Rightarrow> bool) \<Rightarrow> 'w state \<Rightarrow> int \<times> 'w state \<Rightarrow> bool" where
  "has_walk process_line terminate s y = (\<exists>vs. is_walk process_line terminate s vs \<and> last vs = y)"

subsection \<open>Recording the visits of a walk\<close>

text \<open>
  To speak about which lines a walk visits, a line processor is wrapped so that it
  appends every line it is called with, and the status it returns for it, to a list kept
  beside the world. The wrapped processor sees the state without the list and changes
  it as before.
\<close>

definition with_world :: "'v \<Rightarrow> 'w state \<Rightarrow> 'v state" where
  "with_world w s =
     \<lparr>script = script s, script_offset = script_offset s, goto_label = goto_label s,
      console = console s, world = w\<rparr>"

definition logged :: "'w line_processor \<Rightarrow> ('w \<times> (string \<times> int) list) line_processor" where
  "logged v line s =
     (case v line (with_world (fst (world s)) s) of
        None \<Rightarrow> None
      | Some (rc, s') \<Rightarrow> Some (rc, with_world (world s', snd (world s) @ [(line, rc)]) s'))"

definition visits :: "('w \<times> (string \<times> int) list) state \<Rightarrow> (string \<times> int) list" where
  "visits s = snd (world s)"

text \<open>
  \<open>vs\<close> are the visits of a walk from \<open>s\<close> that returned \<open>y\<close>: the status returned is
  that of the last visit, no earlier visit ended the walk, and the last one did or the
  script was exhausted.
\<close>

definition visits_ok ::
  "(int \<Rightarrow> bool) \<Rightarrow> ('w \<times> (string \<times> int) list) state \<Rightarrow>
   int \<times> ('w \<times> (string \<times> int) list) state \<Rightarrow> (string \<times> int) list \<Rightarrow> bool" where
  "visits_ok terminate s y vs =
     (vs \<noteq> [] \<and> visits (snd y) = visits s @ vs \<and> fst y = snd (last vs)
      \<and> (\<forall>e\<in>set (butlast vs). \<not> terminate (snd e))
      \<and> (terminate (fst y)
         \<or> (\<exists>img. script (snd y) = Some img \<and> \<not> script_offset (snd y) < len img)))"

definition logged_walk ::
  "'w line_processor \<Rightarrow> ('w \<times> (string \<times> int) list) line_processor \<Rightarrow> (int \<Rightarrow> bool) \<Rightarrow>
   ('w \<times> (string \<times> int) list) state \<Rightarrow> int \<times> ('w \<times> (string \<times> int) list) state \<Rightarrow>
   bool" where
  "logged_walk v pl terminate s y = (pl = logged v \<longrightarrow> (\<exists>vs. visits_ok terminate s y vs))"

text \<open>
  Forgetting the record gives back a state of the walk that is not recorded. The two
  predicates below say that a recorded walk and the walk it records return the same
  status and, up to the record, the same state.
\<close>

definition erase :: "('w \<times> (string \<times> int) list) state \<Rightarrow> 'w state" where
  "erase s = with_world (fst (world s)) s"

definition erased_walk ::
  "'w line_processor \<Rightarrow> ('w \<times> (string \<times> int) list) line_processor \<Rightarrow> (int \<Rightarrow> bool) \<Rightarrow>
   ('w \<times> (string \<times> int) list) state \<Rightarrow> int \<times> ('w \<times> (string \<times> int) list) state \<Rightarrow>
   bool" where
  "erased_walk v pl terminate s y =
     (pl = logged v \<longrightarrow> process_script_loop v terminate (erase s) = Some (fst y, erase (snd y)))"

definition recorded_walk ::
  "'w line_processor \<Rightarrow> 'w line_processor \<Rightarrow> (int \<Rightarrow> bool) \<Rightarrow> 'w state \<Rightarrow> int \<times> 'w state \<Rightarrow>
   bool" where
  "recorded_walk v pl terminate s0 y0 =
     (pl = v \<longrightarrow>
      (\<forall>s :: ('w \<times> (string \<times> int) list) state. erase s = s0 \<longrightarrow>
         (\<exists>s'. process_script_loop (logged v) terminate s = Some (fst y0, s')
               \<and> erase s' = snd y0)))"

subsection \<open>Example scripts and commands\<close>

text \<open>
  The script of the specification's example; a state in which its last line has just
  been read; a \<open>parse_options\<close> that accepts exactly one argument after the command name.
\<close>

definition example_script :: image where
  "example_script =
     \<lparr>data = ''#!ipxe'' @ [NL] @ '':start'' @ [NL] @ ''echo hi'' @ [NL] @ ''goto start'' @ [NL],
      type = Some script_image_type\<rparr>"

definition example_state :: "unit state" where
  "example_state =
     \<lparr>script = Some example_script, script_offset = 33, goto_label = [], console = [],
      world = ()\<rparr>"

definition example_parse_options :: "string list \<Rightarrow> int \<times> nat" where
  "example_parse_options argv = (if length argv = 2 then (0, 1) else (- 1, 1))"

text \<open>
  A command dispatcher in which \<open>fail\<close> fails and every other command succeeds; an inner
  script that fails on its second line; an outer script whose second line runs the inner
  one; the outer walk about to read that line; the state in which the inner script
  returns.
\<close>

definition example_system :: "unit line_processor" where
  "example_system line s = (if line = ''fail'' then Some (1, s) else Some (0, s))"

definition example_inner :: image where
  "example_inner = \<lparr>data = ''#!ipxe'' @ [NL] @ ''fail'' @ [NL], type = Some script_image_type\<rparr>"

definition example_outer :: image where
  "example_outer =
     \<lparr>data = ''#!ipxe'' @ [NL] @ ''chain'' @ [NL] @ ''echo'' @ [NL], type = Some script_image_type\<rparr>"


definition example_outer_state :: "unit state" where
  "example_outer_state =
     \<lparr>script = Some example_outer, script_offset = 7, goto_label = [], console = [], world = ()\<rparr>"


text \<open>
  A command dispatcher that knows \<open>goto\<close>: a line \<open>goto label\<close> runs \<open>goto_exec\<close> with
  the label, every other command succeeds. Under it the example script of the
  specification jumps back for ever; \<open>never_returns\<close> is the invariant of its walk, read
  as: no walk that returns starts at the offset of one of the four lines.
\<close>

definition example_goto_system :: "unit line_processor" where
  "example_goto_system line s =
     (if take 5 line = ''goto '' then goto_exec example_parse_options [''goto'', drop 5 line] s
      else Some (0, s))"

definition never_returns ::
  "unit line_processor \<Rightarrow> (int \<Rightarrow> bool) \<Rightarrow> unit state \<Rightarrow> int \<times> unit state \<Rightarrow> bool" where
  "never_returns pl terminate s y =
     (\<not> (pl = script_exec_line example_goto_system \<and> terminate = terminate_on_failure
         \<and> script s = Some example_script \<and> script_offset s \<in> {0, 7, 14, 22}))"

text \<open>
  The walk of the inner script: its start, its end after the failing second line, and
  the same two states with the visits recorded.
\<close>

definition example_walk_start :: "unit state" where
  "example_walk_start =
     \<lparr>script = Some example_inner, script_offset = 0, goto_label = [], console = [], world = ()\<rparr>"

definition example_walk_end :: "unit state" where
  "example_walk_end =
     \<lparr>script = Some example_inner, script_offset = 12, goto_label = [],
      console = ''Aborting on '' @ [CHR 0x22] @ ''fail'' @ [CHR 0x22, NL], world = ()\<rparr>"

definition example_recorded_start :: "(unit \<times> (string \<times> int) list) state" where
  "example_recorded_start =
     \<lparr>script = Some example_inner, script_offset = 0, goto_label = [], console = [],
      world = ((), [])\<rparr>"

definition example_recorded_end :: "(unit \<times> (string \<times> int) list) state" where
  "example_recorded_end =
     \<lparr>script = Some example_inner, script_offset = 12, goto_label = [],
      console = ''Aborting on '' @ [CHR 0x22] @ ''fail'' @ [CHR 0x22, NL],
      world = ((), [(''#!ipxe'', 0), (''fail'', 1)])\<rparr>"

text \<open>A line processor whose status is the cursor offset it is called with.\<close>

definition observe_offset :: "'w line_processor" where
  "observe_offset line s = Some (int (script_offset s), s)"

text \<open>Two blobs that are not scripts: one too short, one without the white space.\<close>

definition example_blob :: image where
  "example_blob = \<lparr>data = ''#!ipxe'', type = None\<rparr>"

definition example_bad_blob :: image where
  "example_bad_blob = \<lparr>data = ''#!ipxe-'', type = None\<rparr>"

section \<open>Properties\<close>

subsection \<open>script_load\<close>

lemma memcmp_zero_iff:
  "n \<le> length as \<Longrightarrow> n \<le> length bs \<Longrightarrow> (memcmp as bs n = 0) = (take n as = take n bs)"
  by (induction as bs n rule: memcmp.induct) simp_all

text \<open>The two outcomes of \<open>script_load\<close>, with the checks read off the bytes.\<close>

lemma script_load_cases:
  "script_load img =
     (if 7 \<le> length (data img)
         \<and> (take 6 (data img) = ''#!ipxe'' \<or> take 6 (data img) = ''#!gpxe'')
         \<and> isspace (data img ! 6)
      then (0, img\<lparr>type := Some script_image_type\<rparr>) else (- ENOEXEC, img))"
proof (cases "7 \<le> length (data img)")
  case False
  then show ?thesis by (simp add: script_load_def len_def)
next
  case True
  have a: "(memcmp (take 7 (data img)) (''#!ipxe'' @ [NUL]) 6 = 0) = (take 6 (data img) = ''#!ipxe'')"
    using True by (subst memcmp_zero_iff) simp_all
  have b: "(memcmp (take 7 (data img)) (''#!gpxe'' @ [NUL]) 6 = 0) = (take 6 (data img) = ''#!gpxe'')"
    using True by (subst memcmp_zero_iff) simp_all
  have c: "take 7 (data img) ! 6 = data img ! 6" by simp
  have sz: "length (''#!ipxe'' @ [NUL]) - 1 + 1 = (7::nat)" by simp
  have sz': "(7::nat) - 1 = 6" by simp
  from True have nl: "(length (data img) < 7) = False" by simp
  have "script_load img =
      (if \<not> ((memcmp (take 7 (data img)) (''#!ipxe'' @ [NUL]) 6 = 0 \<or>
                memcmp (take 7 (data img)) (''#!gpxe'' @ [NUL]) 6 = 0) \<and>
               isspace (take 7 (data img) ! 6))
       then (- ENOEXEC, img) else (0, img\<lparr>type := Some script_image_type\<rparr>))"
    unfolding script_load_def Let_def sz sz' copy_from_user_def len_def drop_0 nl if_False
    by (rule refl)
  then show ?thesis
    unfolding a b c using True by (simp only: if_not_P if_P split: if_splits) auto
qed

text \<open>
  C6. \<open>script_load\<close> accepts a blob (status 0, the image tagged as a script) exactly when
  the blob has at least 7 bytes, its first 6 bytes are \<open>#!ipxe\<close> or \<open>#!gpxe\<close> and the
  byte after them is white space; it rejects every other blob, in particular every blob
  shorter than 7 bytes, with a non-zero status.
\<close>

theorem script_load_accepts_iff:
  "(fst (script_load img) = 0) =
     (7 \<le> len img \<and> (take 6 (data img) = ''#!ipxe'' \<or> take 6 (data img) = ''#!gpxe'')
      \<and> isspace (data img ! 6))
   \<and> (fst (script_load img) = 0 \<longrightarrow>
        snd (script_load img) = img\<lparr>type := Some script_image_type\<rparr>)
   \<and> (len img < 7 \<longrightarrow> fst (script_load img) \<noteq> 0)"
  by (simp add: script_load_cases len_def ENOEXEC_def)

theorem script_load_accepts_iff_witness:
  "fst (script_load example_inner) = 0
   \<and> snd (script_load example_inner) = example_inner
   \<and> fst (script_load example_blob) \<noteq> 0"
  using script_load_accepts_iff [of example_inner] script_load_accepts_iff [of example_blob]
  by (simp add: example_inner_def example_blob_def len_def isspace_def NL_def)

text \<open>
  C9. When \<open>script_load\<close> rejects a blob, for either reason, the image it returns is the
  image it was given: the type is assigned on the accepting path only.
\<close>

theorem script_load_reject_unchanged:
  "fst (script_load img) \<noteq> 0 \<Longrightarrow> snd (script_load img) = img"
  by (auto simp add: script_load_cases split: if_splits)

theorem script_load_reject_unchanged_witness:
  "fst (script_load example_bad_blob) \<noteq> 0
   \<and> snd (script_load example_bad_blob) = example_bad_blob"
proof -
  have "fst (script_load example_bad_blob) \<noteq> 0"
    by (simp add: script_load_cases example_bad_blob_def isspace_def ENOEXEC_def)
  with script_load_reject_unchanged [of example_bad_blob] show ?thesis by simp
qed

text \<open>
  C10. The two rejections of \<open>script_load\<close>, of a blob shorter than 7 bytes and of a
  blob with a wrong signature or without the white space after it, return the same
  status, \<open>- ENOEXEC\<close>, which is not 0.
\<close>

theorem script_load_same_status:
  "(len img < 7 \<longrightarrow> fst (script_load img) = - ENOEXEC)
   \<and> (7 \<le> len img
      \<and> \<not> ((take 6 (data img) = ''#!ipxe'' \<or> take 6 (data img) = ''#!gpxe'')
             \<and> isspace (data img ! 6)) \<longrightarrow>
      fst (script_load img) = - ENOEXEC)
   \<and> - ENOEXEC \<noteq> 0"
  by (auto simp add: script_load_cases len_def ENOEXEC_def)

theorem script_load_same_status_witness:
  "len example_blob < 7 \<and> 7 \<le> len example_bad_blob
   \<and> fst (script_load example_blob) = fst (script_load example_bad_blob)
   \<and> fst (script_load example_blob) = - ENOEXEC"
  using script_load_same_status [of example_blob] script_load_same_status [of example_bad_blob]
  by (simp add: example_blob_def example_bad_blob_def len_def isspace_def)

subsection \<open>One iteration of process_script\<close>

lemma memchr_from_eq:
  "memchr_from bs c i =
     (if c \<in> set bs then int (i + length (takeWhile (\<lambda>b. b \<noteq> c) bs)) else - 1)"
  by (induction bs c i rule: memchr_from.induct) auto

text \<open>The length that the loop computes from \<open>memchr_user\<close> is the length of the line.\<close>

lemma next_line_length:
  "nat ((if memchr_user bytes off NL (length bytes - off) < 0 then int (length bytes)
         else memchr_user bytes off NL (length bytes - off)) - int off) =
   length (line_at bytes off)"
proof (cases "NL \<in> set (drop off bytes)")
  case True
  then show ?thesis by (simp add: memchr_user_def memchr_from_eq line_at_def)
next
  case False
  then have "takeWhile (\<lambda>c. c \<noteq> NL) (drop off bytes) = drop off bytes"
    by auto
  then have "length (line_at bytes off) = length (drop off bytes)"
    unfolding line_at_def by (rule arg_cong)
  then have "length (line_at bytes off) = length bytes - off"
    by simp
  moreover have "memchr_user bytes off NL (length bytes - off) = - 1"
    using False by (simp add: memchr_user_def memchr_from_eq)
  ultimately show ?thesis by simp
qed

lemma copy_line: "copy_from_user bytes off (length (line_at bytes off)) = line_at bytes off"
  unfolding copy_from_user_def line_at_def by (rule takeWhile_eq_take [symmetric])

lemma c_string_terminated: "c_string (l @ [NUL]) = c_string l"
  by (induction l) (simp_all add: c_string_def)

lemma line_at_props:
  assumes "off \<le> length bytes"
  shows "off + length (line_at bytes off) < length bytes \<Longrightarrow>
         bytes ! (off + length (line_at bytes off)) = NL"
    and "NL \<notin> set (drop off bytes) \<Longrightarrow> off + length (line_at bytes off) = length bytes"
proof -
  show "bytes ! (off + length (line_at bytes off)) = NL"
    if "off + length (line_at bytes off) < length bytes"
  proof -
    from that have "length (takeWhile (\<lambda>c. c \<noteq> NL) (drop off bytes)) < length (drop off bytes)"
      by (simp add: line_at_def less_diff_conv add.commute)
    from nth_length_takeWhile [OF this] show ?thesis
      using assms by (simp add: line_at_def)
  qed
  show "off + length (line_at bytes off) = length bytes" if "NL \<notin> set (drop off bytes)"
  proof -
    from that have "takeWhile (\<lambda>c. c \<noteq> NL) (drop off bytes) = drop off bytes" by auto
    then have "length (line_at bytes off) = length (drop off bytes)"
      unfolding line_at_def by (rule arg_cong)
    with assms show ?thesis by simp
  qed
qed

text \<open>
  The loop body with the line and the new offset written by \<open>line_at\<close>, for any
  continuation \<open>loop\<close> in the place of the next iteration.
\<close>

lemma loop_body:
  assumes "script s = Some img"
  shows "(case script s of
        None \<Rightarrow> None
      | Some img \<Rightarrow>
          (let eol = memchr_user (data img) (script_offset s) NL
                       (len img - script_offset s);
               eol = (if eol < 0 then int (len img) else eol);
               n = nat (eol - int (script_offset s));
               cmdbuf = copy_from_user (data img) (script_offset s) n @ [NUL];
               s = s\<lparr>script_offset := script_offset s + (n + 1)\<rparr>
           in case process_line (c_string cmdbuf) s of
                None \<Rightarrow> None
              | Some (rc, s) \<Rightarrow>
                  if terminate rc then Some (rc, s)
                  else (case script s of
                          None \<Rightarrow> None
                        | Some img \<Rightarrow>
                            if script_offset s < len img
                            then loop process_line terminate s
                            else Some (rc, s)))) =
     (case process_line (c_string (line_at (data img) (script_offset s)))
             (s\<lparr>script_offset :=
                  script_offset s + length (line_at (data img) (script_offset s)) + 1\<rparr>) of
        None \<Rightarrow> None
      | Some (rc, s') \<Rightarrow>
          if terminate rc then Some (rc, s')
          else (case script s' of
                  None \<Rightarrow> None
                | Some img' \<Rightarrow>
                    if script_offset s' < len img'
                    then loop process_line terminate s'
                    else Some (rc, s')))"
  apply (simp only: assms option.case Let_def len_def next_line_length copy_line
      c_string_terminated)
  apply (simp add: add.assoc)
  done

lemma process_script_loop_step:
  assumes "script s = Some img"
  shows "process_script_loop process_line terminate s =
     (case process_line (c_string (line_at (data img) (script_offset s)))
             (s\<lparr>script_offset :=
                  script_offset s + length (line_at (data img) (script_offset s)) + 1\<rparr>) of
        None \<Rightarrow> None
      | Some (rc, s') \<Rightarrow>
          if terminate rc then Some (rc, s')
          else (case script s' of
                  None \<Rightarrow> None
                | Some img' \<Rightarrow>
                    if script_offset s' < len img'
                    then process_script_loop process_line terminate s'
                    else Some (rc, s')))"
  by (subst process_script_loop.simps) (rule loop_body [OF assms])

text \<open>
  C4, as the code has it. In every iteration (a script is active and the offset is at
  most its length), the line is the bytes from the offset up to, and without, the next
  newline, or up to the end of the script when no newline remains. The offset is then
  advanced by the length of the line plus one: to one past the newline, and to one past
  the end of the script (its length plus one, not its length) when there was no
  newline. Only then is the line processor called, with the line and the advanced
  offset, and the walk goes on from the state the line processor returns, so an offset
  that the line processor assigns stands.
\<close>

theorem process_script_iteration:
  assumes "script s = Some img" and "script_offset s \<le> len img"
  shows "line_at (data img) (script_offset s) =
           takeWhile (\<lambda>c. c \<noteq> NL) (drop (script_offset s) (data img))
       \<and> (script_offset s + length (line_at (data img) (script_offset s)) < len img \<longrightarrow>
            data img ! (script_offset s + length (line_at (data img) (script_offset s))) = NL)
       \<and> (NL \<notin> set (drop (script_offset s) (data img)) \<longrightarrow>
            script_offset s + length (line_at (data img) (script_offset s)) = len img)
       \<and> process_script_loop process_line terminate s =
           (case process_line (c_string (line_at (data img) (script_offset s)))
                   (s\<lparr>script_offset :=
                        script_offset s + length (line_at (data img) (script_offset s)) + 1\<rparr>) of
              None \<Rightarrow> None
            | Some (rc, s') \<Rightarrow>
                if terminate rc then Some (rc, s')
                else (case script s' of
                        None \<Rightarrow> None
                      | Some img' \<Rightarrow>
                          if script_offset s' < len img'
                          then process_script_loop process_line terminate s'
                          else Some (rc, s')))"
  using assms(2) line_at_props [of "script_offset s" "data img"]
    process_script_loop_step [OF assms(1), of process_line terminate]
  by (simp add: len_def line_at_def)

theorem process_script_iteration_witness:
  "process_script_loop observe_offset terminate_on_failure
     \<lparr>script = Some \<lparr>data = ''ab'' @ [NL] @ ''cd'', type = None\<rparr>, script_offset = 3,
      goto_label = [], console = [], world = ()\<rparr> =
   Some (6, \<lparr>script = Some \<lparr>data = ''ab'' @ [NL] @ ''cd'', type = None\<rparr>, script_offset = 6,
      goto_label = [], console = [], world = ()\<rparr>)"
  using process_script_iteration [of
      "\<lparr>script = Some \<lparr>data = ''ab'' @ [NL] @ ''cd'', type = None\<rparr>, script_offset = 3,
        goto_label = [], console = [], world = ()\<rparr>"
      "\<lparr>data = ''ab'' @ [NL] @ ''cd'', type = None\<rparr>" observe_offset terminate_on_failure]
  by (simp add: len_def line_at_def NL_def NUL_def c_string_def observe_offset_def
      terminate_on_failure_def)

text \<open>
  The script \<open>ab\<close> has length 2 and no newline; the line processor is called with the
  offset 3.
\<close>

theorem process_script_iteration_counterexample:
  "process_script observe_offset terminate_on_failure
     \<lparr>script = Some \<lparr>data = ''ab'', type = None\<rparr>, script_offset = 0, goto_label = [],
      console = [], world = ()\<rparr> =
   Some (3, \<lparr>script = Some \<lparr>data = ''ab'', type = None\<rparr>, script_offset = 3, goto_label = [],
      console = [], world = ()\<rparr>)
   \<and> len \<lparr>data = ''ab'', type = None\<rparr> = 2"
  by (simp add: process_script_def process_script_loop_step line_at_def NL_def NUL_def c_string_def
      observe_offset_def terminate_on_failure_def len_def)

text \<open>
  C5, as the code has it. The loop is a do-while: on a script of length 0 the line
  processor is called exactly once, on the empty line and with the offset 1, and the walk
  returns what that call returns (for a line processor that leaves \<open>script\<close> as it is,
  as those of script.c do).
\<close>

theorem process_script_empty_script:
  assumes "script s = Some img" and "len img = 0"
    and "\<And>line s rc s'. v line s = Some (rc, s') \<Longrightarrow> script s' = script s"
  shows "process_script v terminate s = v [] (s\<lparr>script_offset := 1\<rparr>)"
proof (cases "v [] (s\<lparr>script_offset := 1\<rparr>)")
  case None
  then show ?thesis
    using assms(1,2)
    by (simp add: process_script_def process_script_loop_step [where img = img]
        len_def line_at_def c_string_def)
next
  case (Some r)
  obtain rc s' where r: "r = (rc, s')" by (cases r)
  with Some assms(3) have "script s' = script (s\<lparr>script_offset := 1\<rparr>)" by blast
  with Some r assms(1,2) show ?thesis
    by (simp add: process_script_def process_script_loop_step [where img = img]
        len_def line_at_def c_string_def)
qed

theorem process_script_empty_script_witness:
  "process_script (logged (\<lambda>line s. Some (1, s))) terminate_on_success
     \<lparr>script = Some \<lparr>data = [], type = None\<rparr>, script_offset = 0, goto_label = [],
      console = [], world = ((), [])\<rparr> =
   Some (1, \<lparr>script = Some \<lparr>data = [], type = None\<rparr>, script_offset = 1, goto_label = [],
      console = [], world = ((), [([], 1)])\<rparr>)"
proof -
  have h3: "\<And>line s rc s'.
      logged (\<lambda>line s. Some (1, s)) line s = Some (rc, (s' :: (unit \<times> (string \<times> int) list) state))
      \<Longrightarrow> script s' = script s"
    by (auto simp add: logged_def with_world_def)
  from process_script_empty_script [of
      "\<lparr>script = Some \<lparr>data = [], type = None\<rparr>, script_offset = 0, goto_label = [],
        console = [], world = ((), [])\<rparr>" "\<lparr>data = [], type = None\<rparr>"
      "logged (\<lambda>line s. Some (1, s))" terminate_on_success, OF _ _ h3]
  show ?thesis
    by (simp add: len_def logged_def with_world_def)
qed

text \<open>
  On the empty script the recorded walk returns with one visit, of the empty line.
\<close>

theorem process_script_empty_script_counterexample:
  "process_script (logged (\<lambda>line s. Some (0, s))) terminate_on_failure
     \<lparr>script = Some \<lparr>data = [], type = None\<rparr>, script_offset = 0, goto_label = [],
      console = [], world = ((), [])\<rparr> =
   Some (0, \<lparr>script = Some \<lparr>data = [], type = None\<rparr>, script_offset = 1, goto_label = [],
      console = [], world = ((), [([], 0)])\<rparr>)
   \<and> len \<lparr>data = [], type = None\<rparr> = 0"
  by (simp add: process_script_def process_script_loop_step line_at_def NL_def NUL_def c_string_def
      logged_def with_world_def terminate_on_failure_def len_def)

subsection \<open>The lines of a script, and walks that leave the state alone\<close>

lemma lines_at_not_Nil: "lines_at bytes off \<noteq> []"
  by (subst lines_at.simps) simp

lemma lines_at_suffix:
  "lines_at bytes start = before @ (off, l) # after \<Longrightarrow> lines_at bytes off = (off, l) # after"
proof (induction before arbitrary: start)
  case Nil
  then have "off = start"
    by (subst (asm) lines_at.simps) simp
  with Nil show ?case by simp
next
  case (Cons b before)
  let ?next = "start + length (line_at bytes start) + 1"
  from Cons.prems have "?next < length bytes"
    by (subst (asm) lines_at.simps) (simp split: if_splits)
  with Cons.prems have "lines_at bytes ?next = before @ (off, l) # after"
    by (subst (asm) lines_at.simps) simp
  then show ?case by (rule Cons.IH)
qed

text \<open>
  Every listed line is the line at its offset, and the line listed after it, if any,
  starts one past its end; after the last line the script is exhausted.
\<close>

lemma lines_at_next:
  assumes "lines_at bytes start = before @ (off, l) # after"
  shows "l = line_at bytes off \<and>
         (case after of [] \<Rightarrow> length bytes \<le> off + length l + 1
          | (off', l') # _ \<Rightarrow> off' = off + length l + 1)"
proof -
  have eq: "lines_at bytes off = (off, l) # after"
    using assms by (rule lines_at_suffix)
  then have l: "l = line_at bytes off"
    by (subst (asm) lines_at.simps) simp
  show ?thesis
  proof (cases "off + length (line_at bytes off) + 1 < length bytes")
    case True
    with eq have "after = lines_at bytes (off + length (line_at bytes off) + 1)"
      by (subst (asm) lines_at.simps) auto
    then have "after = (off + length (line_at bytes off) + 1,
                        line_at bytes (off + length (line_at bytes off) + 1)) # tl after"
      by (subst (asm) lines_at.simps) simp
    with l show ?thesis by (cases after) auto
  next
    case False
    with eq have "after = []"
      by (subst (asm) lines_at.simps) simp
    with False l show ?thesis by simp
  qed
qed

lemma lines_at_offsets_ge: "(o', l) \<in> set (lines_at bytes off) \<Longrightarrow> off \<le> o'"
proof (induction bytes off rule: lines_at.induct)
  case (1 bytes off)
  show ?case
  proof (cases "off + length (line_at bytes off) + 1 < length bytes")
    case True
    with "1.prems" have "o' = off \<or>
        (o', l) \<in> set (lines_at bytes (off + length (line_at bytes off) + 1))"
      by (subst (asm) lines_at.simps) auto
    with "1.IH" [OF True] show ?thesis by auto
  next
    case False
    with "1.prems" show ?thesis
      by (subst (asm) lines_at.simps) simp
  qed
qed

text \<open>The offsets of the listed lines increase: an earlier line has a smaller offset.\<close>

lemma lines_at_sorted: "sorted_wrt (<) (map fst (lines_at bytes off))"
proof (induction bytes off rule: lines_at.induct)
  case (1 bytes off)
  show ?case
  proof (cases "off + length (line_at bytes off) + 1 < length bytes")
    case True
    have "off < o'" if "(o', l) \<in> set (lines_at bytes (off + length (line_at bytes off) + 1))"
      for o' l
      using lines_at_offsets_ge [OF that] by simp
    with "1.IH" [OF True] True show ?thesis
      by (subst lines_at.simps) auto
  next
    case False
    then show ?thesis by (subst lines_at.simps) simp
  qed
qed

text \<open>
  The listed lines are the script cut at its newlines: no line holds a newline, and the
  lines, each followed by a newline, give the script back, up to a newline that the
  script lacks at its end.
\<close>

lemma line_at_prefix: "drop off bytes = line_at bytes off @ drop (off + length (line_at bytes off)) bytes"
proof -
  have "drop off bytes = take (length (line_at bytes off)) (drop off bytes)
          @ drop (length (line_at bytes off)) (drop off bytes)"
    by (rule append_take_drop_id [symmetric])
  moreover have "take (length (line_at bytes off)) (drop off bytes) = line_at bytes off"
    unfolding line_at_def by (rule takeWhile_eq_take [symmetric])
  moreover have "drop (length (line_at bytes off)) (drop off bytes) =
      drop (off + length (line_at bytes off)) bytes"
    by (simp add: add.commute)
  ultimately show ?thesis by simp
qed

lemma line_at_no_NL: "NL \<notin> set (line_at bytes off)"
  unfolding line_at_def using set_takeWhileD by fastforce

lemma line_at_length: "off \<le> length bytes \<Longrightarrow> off + length (line_at bytes off) \<le> length bytes"
  using length_takeWhile_le [of "\<lambda>c. c \<noteq> NL" "drop off bytes"]
  by (simp add: line_at_def)

lemma lines_at_join:
  "off \<le> length bytes \<Longrightarrow>
   concat (map (\<lambda>(off, l). l @ [NL]) (lines_at bytes off)) = drop off bytes
   \<or> concat (map (\<lambda>(off, l). l @ [NL]) (lines_at bytes off)) = drop off bytes @ [NL]"
proof (induction bytes off rule: lines_at.induct)
  case (1 bytes off)
  let ?l = "line_at bytes off"
  let ?e = "off + length ?l"
  have pre: "drop off bytes = ?l @ drop ?e bytes" by (rule line_at_prefix)
  have le: "?e \<le> length bytes" using "1.prems" by (rule line_at_length)
  show ?case
  proof (cases "?e + 1 < length bytes")
    case True
    then have "bytes ! ?e = NL"
      using line_at_props(1) [OF "1.prems"] by simp
    with True have "drop ?e bytes = NL # drop (?e + 1) bytes"
      using Cons_nth_drop_Suc [of ?e bytes] by simp
    with pre have split: "drop off bytes = ?l @ NL # drop (?e + 1) bytes" by simp
    from True have "?e + 1 \<le> length bytes" by simp
    from "1.IH" [OF True this] split True show ?thesis
      by (subst lines_at.simps, subst (2) lines_at.simps) auto
  next
    case False
    show ?thesis
    proof (cases "?e = length bytes")
      case True
      with pre have "drop off bytes = ?l" by simp
      with False show ?thesis
        by (subst lines_at.simps, subst (2) lines_at.simps) simp
    next
      case ne: False
      with le have lt: "?e < length bytes" by simp
      then have "bytes ! ?e = NL"
        using line_at_props(1) [OF "1.prems"] by simp
      with lt have "drop ?e bytes = NL # drop (?e + 1) bytes"
        using Cons_nth_drop_Suc [of ?e bytes] by simp
      with False pre have "drop off bytes = ?l @ [NL]" by simp
      with False show ?thesis
        by (subst lines_at.simps, subst (2) lines_at.simps) simp
    qed
  qed
qed

lemma script_lines_join:
  "concat (map (\<lambda>(off, l). l @ [NL]) (script_lines bytes)) = bytes
   \<or> concat (map (\<lambda>(off, l). l @ [NL]) (script_lines bytes)) = bytes @ [NL]"
  using lines_at_join [of 0 bytes] by (simp add: script_lines_def)

lemma script_lines_no_NL: "(off, l) \<in> set (script_lines bytes) \<Longrightarrow> NL \<notin> set l"
proof -
  assume "(off, l) \<in> set (script_lines bytes)"
  then obtain before after where "lines_at bytes 0 = before @ (off, l) # after"
    unfolding script_lines_def by (auto simp add: in_set_conv_decomp)
  from lines_at_next [OF this] show ?thesis by (simp add: line_at_no_NL)
qed

lemma walk_result_Cons:
  "walk_result f t s ((off, l) # ls) =
     (if t (f (c_string l)) \<or> ls = []
      then (f (c_string l), s\<lparr>script_offset := off + length l + 1\<rparr>)
      else walk_result f t s ls)"
  by (auto simp add: walk_result_def split: option.splits)

text \<open>
  A walk with a line processor that always returns, leaves the state as it is and has a
  status that depends on the line only, returns, with the result \<open>walk_result\<close> gives
  for the lines from the starting offset.
\<close>

lemma process_script_loop_stateless:
  assumes v: "\<And>line off. v line (s\<lparr>script_offset := off\<rparr>) = Some (f line, s\<lparr>script_offset := off\<rparr>)"
    and sc: "script s = Some img"
  shows "process_script_loop v t (s\<lparr>script_offset := off\<rparr>) =
           Some (walk_result f t s (lines_at (data img) off))"
proof (induction "data img" off rule: lines_at.induct)
  case (1 off)
  let ?l = "line_at (data img) off"
  let ?off' = "off + length ?l + 1"
  have step: "process_script_loop v t (s\<lparr>script_offset := off\<rparr>) =
      (if t (f (c_string ?l)) then Some (f (c_string ?l), s\<lparr>script_offset := ?off'\<rparr>)
       else if ?off' < length (data img)
       then process_script_loop v t (s\<lparr>script_offset := ?off'\<rparr>)
       else Some (f (c_string ?l), s\<lparr>script_offset := ?off'\<rparr>))"
    by (subst process_script_loop_step [where img = img]) (simp_all add: sc v len_def)
  show ?case
  proof (cases "?off' < length (data img)")
    case True
    from 1 [OF True] True step show ?thesis
      by (subst lines_at.simps) (simp add: walk_result_Cons lines_at_not_Nil)
  next
    case False
    with step show ?thesis
      by (subst lines_at.simps) (simp add: walk_result_Cons)
  qed
qed

subsection \<open>The goto command\<close>

lemma of_char_zero_iff: "(int (of_char a) = 0) = (a = NUL)"
proof -
  have "of_char NUL = (0::nat)" by (simp add: NUL_def)
  then have "(of_char a = (0::nat)) = (of_char a = (of_char NUL :: nat))" by simp
  then show ?thesis by (simp only: of_nat_eq_0_iff of_char_eq_iff)
qed

text \<open>\<open>strcmp\<close> is 0 exactly on buffers that denote the same string.\<close>

lemma strcmp_zero_iff: "(strcmp a b = 0) = (c_string a = c_string b)"
proof (induction a b rule: strcmp.induct)
  case 1
  show ?case by simp
next
  case (2 b bs)
  show ?case using of_char_zero_iff [of b] by (simp add: c_string_def)
next
  case (3 a as)
  show ?case using of_char_zero_iff [of a] by (simp add: c_string_def)
next
  case (4 a as b bs)
  then show ?case by (auto simp add: c_string_def)
qed

lemma c_string_tl: "c_string l = c # t \<Longrightarrow> c_string t = t"
  unfolding c_string_def
  by (metis takeWhile_idem takeWhile.simps(2) list.inject list.distinct(1))

lemma c_string_no_NUL: "NUL \<notin> set l \<Longrightarrow> c_string l = l"
  by (auto simp add: c_string_def)

lemma goto_find_label_status:
  "goto_find_label line s = Some (label_status (goto_label s) line, s)"
  by (simp add: goto_find_label_def label_status_def)

lemma label_status_zero_iff:
  "(label_status label (c_string l) = 0) = is_label_line label l"
proof (cases "c_string l")
  case Nil
  then show ?thesis
    by (simp add: label_status_def is_label_line_def first_char_def NUL_def ENOENT_def)
next
  case (Cons c t)
  then have "c_string t = t" by (rule c_string_tl)
  with Cons show ?thesis
    by (auto simp add: label_status_def is_label_line_def first_char_def strcmp_zero_iff
        ENOENT_def)
qed

lemma label_status_cases: "label_status label line = 0 \<or> label_status label line = - ENOENT"
  by (simp add: label_status_def)

lemma find_first:
  "ls = before @ x # after \<Longrightarrow> P x \<Longrightarrow> \<forall>y\<in>set before. \<not> P y \<Longrightarrow> find P ls = Some x"
  by (induction before arbitrary: ls) auto

text \<open>The label search always returns, with the result of a walk over all lines.\<close>

lemma process_script_goto_find_label:
  assumes "script s = Some img"
  shows "process_script goto_find_label terminate_on_success s =
           Some (walk_result (label_status (goto_label s)) terminate_on_success
                   (s\<lparr>script_offset := 0\<rparr>) (script_lines (data img)))"
proof -
  let ?s = "s\<lparr>script_offset := 0\<rparr>"
  have "process_script_loop goto_find_label terminate_on_success (?s\<lparr>script_offset := 0\<rparr>) =
          Some (walk_result (label_status (goto_label s)) terminate_on_success ?s
                  (lines_at (data img) 0))"
    by (rule process_script_loop_stateless) (simp_all add: goto_find_label_status assms)
  then show ?thesis by (simp add: process_script_def script_lines_def)
qed

lemma walk_result_found:
  assumes "ls = before @ (off, l) # after"
    and "is_label_line label l"
    and "\<forall>(off', l')\<in>set before. \<not> is_label_line label l'"
  shows "walk_result (label_status label) terminate_on_success s ls =
           (0, s\<lparr>script_offset := off + length l + 1\<rparr>)"
proof -
  have "find (\<lambda>(off, l). terminate_on_success (label_status label (c_string l))) ls =
          Some (off, l)"
    using assms by (intro find_first [where before = before and after = after])
      (auto simp add: terminate_on_success_def label_status_zero_iff)
  then show ?thesis
    using assms(2) by (simp add: walk_result_def label_status_zero_iff)
qed

lemma walk_result_not_found:
  assumes "ls \<noteq> []" and "\<forall>(off, l)\<in>set ls. \<not> is_label_line label l"
  shows "walk_result (label_status label) terminate_on_success s ls =
           (- ENOENT, s\<lparr>script_offset := fst (last ls) + length (snd (last ls)) + 1\<rparr>)"
proof -
  have none: "find (\<lambda>(off, l). terminate_on_success (label_status label (c_string l))) ls = None"
    using assms(2)
    by (auto simp add: find_None_iff terminate_on_success_def label_status_zero_iff)
  obtain off l where last: "last ls = (off, l)" by (cases "last ls")
  with assms have "\<not> is_label_line label l"
    using last_in_set [OF assms(1)] by auto
  then have "label_status label (c_string l) = - ENOENT"
    using label_status_cases [of label "c_string l"] by (simp add: label_status_zero_iff)
  with none last show ?thesis by (simp add: walk_result_def)
qed

lemma first_match_is_earliest:
  assumes "lines_at bytes 0 = before @ (off, l) # after"
    and "\<forall>(off', l')\<in>set before. \<not> P l'"
    and "(off', l') \<in> set (lines_at bytes 0)" and "P l'"
  shows "off \<le> off'"
proof -
  have "sorted_wrt (<) (map fst (before @ (off, l) # after))"
    using lines_at_sorted [of bytes 0] assms(1) by simp
  then have "\<forall>x\<in>set after. off < fst x"
    by (simp add: sorted_wrt_append)
  moreover from assms have "(off', l') = (off, l) \<or> (off', l') \<in> set after"
    by auto
  ultimately show ?thesis by auto
qed

text \<open>
  C2. Let a script be active, whatever the offset, and let \<open>goto\<close> be called with one
  well-formed label argument. If the lines of the script are \<open>before\<close>, then a line \<open>l\<close>
  at offset \<open>off\<close> that declares the label, then \<open>after\<close>, and no line of \<open>before\<close>
  declares the label, then \<open>goto_exec\<close> returns 0 and leaves \<open>script_offset\<close> one past
  the end of \<open>l\<close>. That is the offset of the line after \<open>l\<close>, when there is one, and past
  the end of the script otherwise; and no line that declares the label has a smaller
  offset than \<open>l\<close>.
\<close>

theorem goto_exec_existing_label:
  assumes "script s = Some img"
    and "parse_options argv = (0, optind)" and "optind < length argv"
    and "script_lines (data img) = before @ (off, l) # after"
    and "is_label_line (argv ! optind) l"
    and "\<forall>(off', l')\<in>set before. \<not> is_label_line (argv ! optind) l'"
  shows "goto_exec parse_options argv s =
           Some (0, s\<lparr>goto_label := argv ! optind, script_offset := off + length l + 1\<rparr>)
         \<and> (case after of [] \<Rightarrow> len img \<le> off + length l + 1
             | (off', l') # _ \<Rightarrow> off' = off + length l + 1)
         \<and> (\<forall>(off', l')\<in>set (script_lines (data img)).
               is_label_line (argv ! optind) l' \<longrightarrow> off \<le> off')"
proof -
  let ?s = "s\<lparr>goto_label := argv ! optind\<rparr>"
  have "process_script goto_find_label terminate_on_success ?s =
          Some (0, ?s\<lparr>script_offset := 0\<rparr>\<lparr>script_offset := off + length l + 1\<rparr>)"
    using assms(1)
      walk_result_found [OF assms(4) assms(5) assms(6), where s = "?s\<lparr>script_offset := 0\<rparr>"]
    by (simp add: process_script_goto_find_label [where img = img])
  then have "goto_exec parse_options argv s =
               Some (0, s\<lparr>goto_label := argv ! optind, script_offset := off + length l + 1\<rparr>)"
    using assms(1-3) by (simp add: goto_exec_def)
  moreover have "case after of [] \<Rightarrow> len img \<le> off + length l + 1
                 | (off', l') # _ \<Rightarrow> off' = off + length l + 1"
    using lines_at_next [OF assms(4) [unfolded script_lines_def]] unfolding len_def by blast
  moreover have "\<forall>(off', l')\<in>set (script_lines (data img)).
                   is_label_line (argv ! optind) l' \<longrightarrow> off \<le> off'"
    using first_match_is_earliest [OF assms(4) [unfolded script_lines_def],
        where P = "is_label_line (argv ! optind)"] assms(6)
    unfolding script_lines_def by blast
  ultimately show ?thesis by simp
qed

theorem goto_exec_existing_label_witness:
  "goto_exec example_parse_options [''goto'', ''start''] example_state =
     Some (0, example_state\<lparr>goto_label := ''start'', script_offset := 14\<rparr>)"
proof -
  have h1: "script example_state = Some example_script" by (simp add: example_state_def)
  have h2: "example_parse_options [''goto'', ''start''] = (0, 1)"
    by (simp add: example_parse_options_def)
  have h3: "1 < length [''goto'', ''start'']" by simp
  have h4: "script_lines (data example_script) =
    [(0, ''#!ipxe'')] @ (7, '':start'') # [(14, ''echo hi''), (22, ''goto start'')]"
    by (simp add: script_lines_def lines_at.simps line_at_def example_script_def NL_def)
  have h5: "is_label_line ([''goto'', ''start''] ! 1) '':start''"
    by (simp add: is_label_line_def c_string_def NUL_def)
  have h6: "\<forall>(off', l')\<in>set [(0::nat, ''#!ipxe'')].
      \<not> is_label_line ([''goto'', ''start''] ! 1) l'"
    by (simp add: is_label_line_def c_string_def NUL_def)
  from goto_exec_existing_label [where parse_options = example_parse_options
      and argv = "[''goto'', ''start'']", OF h1 h2 h3 h4 h5 h6]
  show ?thesis by simp
qed

text \<open>
  C3. Let a script be active and let \<open>goto\<close> be called with one well-formed label
  argument. If no line of the script declares the label, \<open>goto_exec\<close> returns the
  non-zero status \<open>- ENOENT\<close>, and the state it returns is the state before the call
  with \<open>goto_label\<close> set: \<open>script_offset\<close> has its value from before the call.
\<close>

theorem goto_exec_missing_label:
  assumes "script s = Some img"
    and "parse_options argv = (0, optind)" and "optind < length argv"
    and "\<forall>(off, l)\<in>set (script_lines (data img)). \<not> is_label_line (argv ! optind) l"
  shows "goto_exec parse_options argv s = Some (- ENOENT, s\<lparr>goto_label := argv ! optind\<rparr>)
         \<and> - ENOENT \<noteq> 0
         \<and> script_offset (s\<lparr>goto_label := argv ! optind\<rparr>) = script_offset s"
proof -
  let ?s = "s\<lparr>goto_label := argv ! optind\<rparr>"
  have "script_lines (data img) \<noteq> []"
    by (simp add: script_lines_def lines_at_not_Nil)
  from walk_result_not_found [OF this assms(4), where s = "?s\<lparr>script_offset := 0\<rparr>"]
  obtain off where "process_script goto_find_label terminate_on_success ?s =
          Some (- ENOENT, ?s\<lparr>script_offset := 0\<rparr>\<lparr>script_offset := off\<rparr>)"
    using assms(1) by (simp add: process_script_goto_find_label [where img = img])
  then have "goto_exec parse_options argv s = Some (- ENOENT, s\<lparr>goto_label := argv ! optind\<rparr>)"
    using assms(1-3) by (simp add: goto_exec_def ENOENT_def)
  then show ?thesis by (simp add: ENOENT_def)
qed

theorem goto_exec_missing_label_witness:
  "goto_exec example_parse_options [''goto'', ''end''] example_state =
     Some (- ENOENT, example_state\<lparr>goto_label := ''end''\<rparr>)"
proof -
  have h1: "script example_state = Some example_script" by (simp add: example_state_def)
  have h2: "example_parse_options [''goto'', ''end''] = (0, 1)"
    by (simp add: example_parse_options_def)
  have h3: "1 < length [''goto'', ''end'']" by simp
  have h4: "\<forall>(off, l)\<in>set (script_lines (data example_script)).
      \<not> is_label_line ([''goto'', ''end''] ! 1) l"
    by (simp add: script_lines_def lines_at.simps line_at_def example_script_def NL_def
        is_label_line_def c_string_def NUL_def)
  from goto_exec_missing_label [where parse_options = example_parse_options
      and argv = "[''goto'', ''end'']", OF h1 h2 h3 h4]
  show ?thesis by simp
qed

text \<open>
  C8. If \<open>goto\<close> is called with a well-formed argument while no script is active,
  \<open>goto_exec\<close> returns the non-zero status \<open>- ENOTTY\<close>; the state it returns is the state
  before the call with the message on the console, so \<open>script\<close> and \<open>script_offset\<close>
  are as before.
\<close>

theorem goto_exec_not_in_script:
  assumes "script s = None" and "parse_options argv = (0, optind)"
  shows "goto_exec parse_options argv s =
           Some (- ENOTTY, printf (''Not in a script'' @ [NL]) s)
       \<and> - ENOTTY \<noteq> 0
       \<and> script (printf (''Not in a script'' @ [NL]) s) = script s
       \<and> script_offset (printf (''Not in a script'' @ [NL]) s) = script_offset s"
  using assms by (simp add: goto_exec_def printf_def ENOTTY_def)

theorem goto_exec_not_in_script_witness:
  "goto_exec example_parse_options [''goto'', ''start''] (example_state\<lparr>script := None\<rparr>) =
     Some (- ENOTTY, example_state\<lparr>script := None, console := ''Not in a script'' @ [NL]\<rparr>)"
proof -
  have h1: "script (example_state\<lparr>script := None\<rparr>) = None" by simp
  have h2: "example_parse_options [''goto'', ''start''] = (0, 1)"
    by (simp add: example_parse_options_def)
  from goto_exec_not_in_script [where parse_options = example_parse_options
      and argv = "[''goto'', ''start'']", OF h1 h2]
  show ?thesis
    by (simp add: printf_def example_state_def)
qed

subsection \<open>The status that process_script returns\<close>

lemma logged_visits:
  "logged v line s = Some (rc, s') \<Longrightarrow> visits s' = visits s @ [(line, rc)]"
  by (auto simp add: logged_def visits_def with_world_def split: option.splits)

lemma visits_ok_single:
  "visits s2 = visits s @ [(line, rc)] \<Longrightarrow>
   terminate rc \<or> (\<exists>img. script s2 = Some img \<and> \<not> script_offset s2 < len img) \<Longrightarrow>
   visits_ok terminate s (rc, s2) [(line, rc)]"
  by (simp add: visits_ok_def)

lemma visits_ok_Cons:
  "visits s2 = visits s @ [(line, rc)] \<Longrightarrow> \<not> terminate rc \<Longrightarrow>
   visits_ok terminate s2 y vs \<Longrightarrow> visits_ok terminate s y ((line, rc) # vs)"
  by (auto simp add: visits_ok_def)

text \<open>
  Induction over the iterations of a walk that returns: each iteration adds one visit;
  the walk returns from the iteration whose status ends it, or from the one after which
  the script is exhausted.
\<close>

lemma process_script_loop_visits:
  assumes "process_script_loop pl0 terminate0 s0 = Some y0"
  shows "logged_walk v pl0 terminate0 s0 y0"
  using assms
proof (rule process_script_loop.raw_induct [rotated, where P = "logged_walk v"])
  fix loop pl terminate s y
  assume IH: "\<And>pl terminate s y. loop pl terminate s = Some y \<Longrightarrow> logged_walk v pl terminate s y"
    and hyps: "(case script s of
        None \<Rightarrow> None
      | Some img \<Rightarrow>
          (let eol = memchr_user (data img) (script_offset s) NL
                       (len img - script_offset s);
               eol = (if eol < 0 then int (len img) else eol);
               n = nat (eol - int (script_offset s));
               cmdbuf = copy_from_user (data img) (script_offset s) n @ [NUL];
               s = s\<lparr>script_offset := script_offset s + (n + 1)\<rparr>
           in case pl (c_string cmdbuf) s of
                None \<Rightarrow> None
              | Some (rc, s) \<Rightarrow>
                  if terminate rc then Some (rc, s)
                  else (case script s of
                          None \<Rightarrow> None
                        | Some img \<Rightarrow>
                            if script_offset s < len img
                            then loop pl terminate s
                            else Some (rc, s)))) = Some y"
  show "logged_walk v pl terminate s y"
    unfolding logged_walk_def
  proof
    assume pl: "pl = logged v"
    from hyps obtain img where img: "script s = Some img"
      by (cases "script s") simp_all
    let ?line = "c_string (line_at (data img) (script_offset s))"
    let ?s1 = "s\<lparr>script_offset :=
                   script_offset s + length (line_at (data img) (script_offset s)) + 1\<rparr>"
    from hyps obtain rc1 s2 where
      visit: "pl ?line ?s1 = Some (rc1, s2)" and
      rest: "(if terminate rc1 then Some (rc1, s2)
              else (case script s2 of None \<Rightarrow> None
                    | Some img' \<Rightarrow> if script_offset s2 < len img' then loop pl terminate s2
                                   else Some (rc1, s2))) = Some y"
      unfolding loop_body [OF img] by (auto split: option.splits)
    from visit pl have log: "visits s2 = visits s @ [(?line, rc1)]"
      using logged_visits [of v ?line ?s1 rc1 s2] by (simp add: visits_def)
    show "\<exists>vs. visits_ok terminate s y vs"
    proof (cases "terminate rc1")
      case True
      with rest have "y = (rc1, s2)" by simp
      with True log have "visits_ok terminate s y [(?line, rc1)]"
        by (simp add: visits_ok_single)
      then show ?thesis ..
    next
      case False
      with rest obtain img' where img': "script s2 = Some img'"
        by (cases "script s2") simp_all
      show ?thesis
      proof (cases "script_offset s2 < len img'")
        case True
        with rest False img' have "loop pl terminate s2 = Some y" by simp
        from IH [OF this] pl obtain vs where "visits_ok terminate s2 y vs"
          unfolding logged_walk_def by blast
        with log False have "visits_ok terminate s y ((?line, rc1) # vs)"
          by (rule visits_ok_Cons)
        then show ?thesis ..
      next
        case exhausted: False
        with rest False img' have "y = (rc1, s2)" by simp
        with exhausted img' log have "visits_ok terminate s y [(?line, rc1)]"
          by (simp add: visits_ok_single)
        then show ?thesis ..
      qed
    qed
  qed
qed

text \<open>
  Recording changes nothing: when the recorded walk returns, so does the walk it
  records, with the same status and the same state up to the record; and when a walk
  returns, so does its recorded walk.
\<close>

lemma erase_simps:
  "script (erase s) = script s" "script_offset (erase s) = script_offset s"
  "erase (s\<lparr>script_offset := off\<rparr>) = (erase s)\<lparr>script_offset := off\<rparr>"
  by (simp_all add: erase_def with_world_def)

lemma logged_erase:
  "logged v line s = Some (rc, s') \<Longrightarrow> v line (erase s) = Some (rc, erase s')"
  by (auto simp add: logged_def erase_def with_world_def split: option.splits)

lemma logged_None: "logged v line s = None \<Longrightarrow> v line (erase s) = None"
  by (auto simp add: logged_def erase_def split: option.splits)

lemma process_script_loop_erase:
  assumes "process_script_loop pl0 terminate0 s0 = Some y0"
  shows "erased_walk v pl0 terminate0 s0 y0"
  using assms
proof (rule process_script_loop.raw_induct [rotated, where P = "erased_walk v"])
  fix loop pl terminate s y
  assume IH: "\<And>pl terminate s y. loop pl terminate s = Some y \<Longrightarrow> erased_walk v pl terminate s y"
    and hyps: "(case script s of
        None \<Rightarrow> None
      | Some img \<Rightarrow>
          (let eol = memchr_user (data img) (script_offset s) NL
                       (len img - script_offset s);
               eol = (if eol < 0 then int (len img) else eol);
               n = nat (eol - int (script_offset s));
               cmdbuf = copy_from_user (data img) (script_offset s) n @ [NUL];
               s = s\<lparr>script_offset := script_offset s + (n + 1)\<rparr>
           in case pl (c_string cmdbuf) s of
                None \<Rightarrow> None
              | Some (rc, s) \<Rightarrow>
                  if terminate rc then Some (rc, s)
                  else (case script s of
                          None \<Rightarrow> None
                        | Some img \<Rightarrow>
                            if script_offset s < len img
                            then loop pl terminate s
                            else Some (rc, s)))) = Some y"
  show "erased_walk v pl terminate s y"
    unfolding erased_walk_def
  proof
    assume pl: "pl = logged v"
    from hyps obtain img where img: "script s = Some img"
      by (cases "script s") simp_all
    let ?line = "c_string (line_at (data img) (script_offset s))"
    let ?s1 = "s\<lparr>script_offset :=
                   script_offset s + length (line_at (data img) (script_offset s)) + 1\<rparr>"
    from hyps obtain rc1 s2 where
      visit: "pl ?line ?s1 = Some (rc1, s2)" and
      rest: "(if terminate rc1 then Some (rc1, s2)
              else (case script s2 of None \<Rightarrow> None
                    | Some img' \<Rightarrow> if script_offset s2 < len img' then loop pl terminate s2
                                   else Some (rc1, s2))) = Some y"
      unfolding loop_body [OF img] by (auto split: option.splits)
    from visit pl have v: "v ?line ((erase s)\<lparr>script_offset :=
        script_offset s + length (line_at (data img) (script_offset s)) + 1\<rparr>) = Some (rc1, erase s2)"
      using logged_erase [of v ?line ?s1 rc1 s2] by (simp add: erase_simps)
    have step: "process_script_loop v terminate (erase s) =
        (if terminate rc1 then Some (rc1, erase s2)
         else (case script s2 of None \<Rightarrow> None
               | Some img' \<Rightarrow> if script_offset s2 < len img'
                              then process_script_loop v terminate (erase s2)
                              else Some (rc1, erase s2)))"
      using img v
      by (subst process_script_loop_step [where img = img])
        (simp_all add: erase_simps split: option.splits)
    show "process_script_loop v terminate (erase s) = Some (fst y, erase (snd y))"
    proof (cases "terminate rc1")
      case True
      with rest step show ?thesis by auto
    next
      case False
      with rest obtain img' where img': "script s2 = Some img'"
        by (cases "script s2") simp_all
      show ?thesis
      proof (cases "script_offset s2 < len img'")
        case True
        with rest False img' have "loop pl terminate s2 = Some y" by simp
        from IH [OF this] pl
        have "process_script_loop v terminate (erase s2) = Some (fst y, erase (snd y))"
          unfolding erased_walk_def by blast
        with step False img' True show ?thesis by simp
      next
        case exhausted: False
        with rest False img' step show ?thesis by auto
      qed
    qed
  qed
qed

lemma process_script_erase:
  "process_script (logged v) terminate s = Some (rc, s') \<Longrightarrow>
   process_script v terminate (erase s) = Some (rc, erase s')"
  using process_script_loop_erase [of "logged v" terminate "s\<lparr>script_offset := 0\<rparr>" "(rc, s')" v]
  by (simp add: process_script_def erased_walk_def erase_simps)

lemma logged_of_erase:
  "v line (erase s) = Some (rc, s') \<Longrightarrow> \<exists>s2. logged v line s = Some (rc, s2) \<and> erase s2 = s'"
  by (simp add: logged_def erase_def with_world_def)

lemma process_script_loop_record:
  assumes "process_script_loop pl0 terminate0 s0 = Some y0"
  shows "recorded_walk v pl0 terminate0 s0 y0"
  using assms
proof (rule process_script_loop.raw_induct [rotated, where P = "recorded_walk v"])
  fix loop pl terminate s0 y
  assume IH: "\<And>pl terminate s y. loop pl terminate s = Some y \<Longrightarrow> recorded_walk v pl terminate s y"
    and hyps: "(case script s0 of
        None \<Rightarrow> None
      | Some img \<Rightarrow>
          (let eol = memchr_user (data img) (script_offset s0) NL
                       (len img - script_offset s0);
               eol = (if eol < 0 then int (len img) else eol);
               n = nat (eol - int (script_offset s0));
               cmdbuf = copy_from_user (data img) (script_offset s0) n @ [NUL];
               s = s0\<lparr>script_offset := script_offset s0 + (n + 1)\<rparr>
           in case pl (c_string cmdbuf) s of
                None \<Rightarrow> None
              | Some (rc, s) \<Rightarrow>
                  if terminate rc then Some (rc, s)
                  else (case script s of
                          None \<Rightarrow> None
                        | Some img \<Rightarrow>
                            if script_offset s < len img
                            then loop pl terminate s
                            else Some (rc, s)))) = Some y"
  show "recorded_walk v pl terminate s0 y"
    unfolding recorded_walk_def
  proof (intro impI allI)
    fix s :: "('a \<times> (string \<times> int) list) state"
    assume pl: "pl = v" and s: "erase s = s0"
    from hyps obtain img where img0: "script s0 = Some img"
      by (cases "script s0") simp_all
    with s have img: "script s = Some img" by (simp add: erase_simps [symmetric])
    from s have off: "script_offset s = script_offset s0" by (simp add: erase_simps [symmetric])
    let ?line = "c_string (line_at (data img) (script_offset s0))"
    let ?n = "script_offset s0 + length (line_at (data img) (script_offset s0)) + 1"
    from hyps obtain rc1 s2' where
      visit: "pl ?line (s0\<lparr>script_offset := ?n\<rparr>) = Some (rc1, s2')" and
      rest: "(if terminate rc1 then Some (rc1, s2')
              else (case script s2' of None \<Rightarrow> None
                    | Some img' \<Rightarrow> if script_offset s2' < len img' then loop pl terminate s2'
                                   else Some (rc1, s2'))) = Some y"
      unfolding loop_body [OF img0] by (auto split: option.splits)
    from visit pl s have "v ?line (erase (s\<lparr>script_offset := ?n\<rparr>)) = Some (rc1, s2')"
      by (simp add: erase_simps)
    from logged_of_erase [where v = v, OF this] obtain s2 where
      lv: "logged v ?line (s\<lparr>script_offset := ?n\<rparr>) = Some (rc1, s2)" and s2: "erase s2 = s2'"
      by blast
    from s2 have cur: "script s2 = script s2'" "script_offset s2 = script_offset s2'"
      by (simp_all add: erase_simps [symmetric])
    have step: "process_script_loop (logged v) terminate s =
        (if terminate rc1 then Some (rc1, s2)
         else (case script s2' of None \<Rightarrow> None
               | Some img' \<Rightarrow> if script_offset s2' < len img'
                              then process_script_loop (logged v) terminate s2
                              else Some (rc1, s2)))"
      using img lv cur off
      by (subst process_script_loop_step [where img = img]) (simp_all split: option.splits)
    show "\<exists>s'. process_script_loop (logged v) terminate s = Some (fst y, s') \<and> erase s' = snd y"
    proof (cases "terminate rc1")
      case True
      with rest step s2 show ?thesis by auto
    next
      case False
      with rest obtain img' where img': "script s2' = Some img'"
        by (cases "script s2'") simp_all
      show ?thesis
      proof (cases "script_offset s2' < len img'")
        case True
        with rest False img' have "loop pl terminate s2' = Some y" by simp
        from IH [OF this] pl s2
        obtain s' where "process_script_loop (logged v) terminate s2 = Some (fst y, s')"
          "erase s' = snd y"
          unfolding recorded_walk_def by blast
        with step False img' True show ?thesis by simp
      next
        case exhausted: False
        with rest False img' step s2 show ?thesis by auto
      qed
    qed
  qed
qed

lemma process_script_record:
  assumes "process_script v terminate (erase s) = Some (rc, s0)"
  shows "\<exists>s'. process_script (logged v) terminate s = Some (rc, s') \<and> erase s' = s0"
proof -
  from assms have "process_script_loop v terminate (erase (s\<lparr>script_offset := 0\<rparr>)) = Some (rc, s0)"
    by (simp add: process_script_def erase_simps)
  from process_script_loop_record [OF this, of v] show ?thesis
    by (simp add: recorded_walk_def process_script_def)
qed

text \<open>
  The loop in terms of visits: it returns from a visit whose status the stop predicate
  accepts or that exhausts the script, and goes on from the state of any other visit.
  So a walk returns exactly when its visits form a finite list as \<open>is_walk\<close> describes,
  and then with what the last visit returned.
\<close>

lemma process_script_loop_visit:
  "process_script_loop process_line terminate s =
     (case visit process_line s of
        None \<Rightarrow> None
      | Some (rc, s') \<Rightarrow>
          if terminate rc then Some (rc, s')
          else if more_lines s' then process_script_loop process_line terminate s'
          else if exhausted s' then Some (rc, s') else None)"
proof (cases "script s")
  case None
  then show ?thesis
    by (subst process_script_loop.simps) (simp add: visit_def)
next
  case (Some img)
  show ?thesis
    by (subst process_script_loop_step [OF Some])
      (auto simp add: visit_def Some more_lines_def exhausted_def split: option.splits)
qed

lemma is_walk_returns:
  "is_walk process_line terminate s vs \<Longrightarrow>
   process_script_loop process_line terminate s = Some (last vs)"
proof (induction vs arbitrary: s)
  case Nil
  then show ?case by simp
next
  case (Cons e vs)
  obtain rc s1 where e: "e = (rc, s1)" by (cases e)
  from Cons.prems e have v: "visit process_line s = Some (rc, s1)" by simp
  show ?case
  proof (cases "vs = []")
    case True
    with Cons.prems e have "terminate rc \<or> exhausted s1" by simp
    moreover have "exhausted s1 \<Longrightarrow> \<not> more_lines s1"
      by (simp add: exhausted_def more_lines_def split: option.splits)
    ultimately show ?thesis
      using v True e by (subst process_script_loop_visit) auto
  next
    case False
    with Cons.prems e have c: "\<not> terminate rc" "more_lines s1" "is_walk process_line terminate s1 vs"
      by simp_all
    from Cons.IH [OF c(3)] v c(1,2) False show ?thesis
      by (subst process_script_loop_visit) simp
  qed
qed

lemma is_walk_props:
  "is_walk process_line terminate s vs \<Longrightarrow>
   vs \<noteq> [] \<and> (\<forall>e\<in>set (butlast vs). \<not> terminate (fst e) \<and> more_lines (snd e))
   \<and> (terminate (fst (last vs)) \<or> exhausted (snd (last vs)))"
proof (induction vs arbitrary: s)
  case Nil
  then show ?case by simp
next
  case (Cons e vs)
  obtain rc s1 where e: "e = (rc, s1)" by (cases e)
  show ?case
  proof (cases "vs = []")
    case True
    with Cons.prems e show ?thesis by simp
  next
    case False
    with Cons.prems e have c: "\<not> terminate rc" "more_lines s1" "is_walk process_line terminate s1 vs"
      by simp_all
    from Cons.IH [OF c(3)] c(1,2) False e show ?thesis by simp
  qed
qed

lemma returns_has_walk:
  assumes "process_script_loop pl0 terminate0 s0 = Some y0"
  shows "has_walk pl0 terminate0 s0 y0"
  using assms
proof (rule process_script_loop.raw_induct [rotated, where P = has_walk])
  fix loop pl terminate s y
  assume IH: "\<And>pl terminate s y. loop pl terminate s = Some y \<Longrightarrow> has_walk pl terminate s y"
    and hyps: "(case script s of
        None \<Rightarrow> None
      | Some img \<Rightarrow>
          (let eol = memchr_user (data img) (script_offset s) NL
                       (len img - script_offset s);
               eol = (if eol < 0 then int (len img) else eol);
               n = nat (eol - int (script_offset s));
               cmdbuf = copy_from_user (data img) (script_offset s) n @ [NUL];
               s = s\<lparr>script_offset := script_offset s + (n + 1)\<rparr>
           in case pl (c_string cmdbuf) s of
                None \<Rightarrow> None
              | Some (rc, s) \<Rightarrow>
                  if terminate rc then Some (rc, s)
                  else (case script s of
                          None \<Rightarrow> None
                        | Some img \<Rightarrow>
                            if script_offset s < len img
                            then loop pl terminate s
                            else Some (rc, s)))) = Some y"
  from hyps obtain img where img: "script s = Some img"
    by (cases "script s") simp_all
  from hyps obtain rc1 s2 where
    v0: "pl (c_string (line_at (data img) (script_offset s)))
           (s\<lparr>script_offset :=
                script_offset s + length (line_at (data img) (script_offset s)) + 1\<rparr>) =
         Some (rc1, s2)" and
    rest: "(if terminate rc1 then Some (rc1, s2)
            else (case script s2 of None \<Rightarrow> None
                  | Some img' \<Rightarrow> if script_offset s2 < len img' then loop pl terminate s2
                                 else Some (rc1, s2))) = Some y"
    unfolding loop_body [OF img] by (auto split: option.splits)
  from v0 img have v: "visit pl s = Some (rc1, s2)" by (simp add: visit_def)
  show "has_walk pl terminate s y"
  proof (cases "terminate rc1")
    case True
    with rest have "y = (rc1, s2)" by simp
    with True v have "is_walk pl terminate s [(rc1, s2)] \<and> last [(rc1, s2)] = y" by simp
    then show ?thesis unfolding has_walk_def by blast
  next
    case False
    with rest obtain img' where img': "script s2 = Some img'"
      by (cases "script s2") simp_all
    show ?thesis
    proof (cases "script_offset s2 < len img'")
      case True
      with rest False img' have "loop pl terminate s2 = Some y" by simp
      from IH [OF this] obtain vs where vs: "is_walk pl terminate s2 vs" "last vs = y"
        unfolding has_walk_def by blast
      then have ne: "vs \<noteq> []" by (cases vs) simp_all
      from True img' have "more_lines s2" by (simp add: more_lines_def)
      with vs ne v False have "is_walk pl terminate s ((rc1, s2) # vs) \<and> last ((rc1, s2) # vs) = y"
        by simp
      then show ?thesis unfolding has_walk_def by blast
    next
      case ex: False
      with rest False img' have "y = (rc1, s2)" by simp
      moreover from ex img' have "exhausted s2" by (simp add: exhausted_def)
      ultimately have "is_walk pl terminate s [(rc1, s2)] \<and> last [(rc1, s2)] = y"
        using v by simp
      then show ?thesis unfolding has_walk_def by blast
    qed
  qed
qed

text \<open>
  C7. \<open>process_script\<close> returns \<open>y\<close> exactly when the visits from offset 0 form a
  finite list whose last visit returned \<open>y\<close>. In that list the stop predicate refuses
  the status of every visit before the last, so the walk returns at the first visited
  line whose status the predicate accepts, with exactly that status and the state that
  visit left, and visits no line after it; and when the predicate accepts no status,
  the walk returns the status of the final visited line, the one that exhausts the
  script. The walk does return in both cases: from any iteration whose visit returns a
  status that the predicate accepts, or leaves the script exhausted, the loop returns
  what that visit returned; from any other iteration whose visit returns it goes on
  with the next line. With the visits recorded by the line processor itself, the
  record of a walk that returns shows the same: the status is that of the last recorded
  visit and the predicate refused every earlier one.
\<close>

theorem process_script_status:
  "((process_script process_line terminate s = Some y) =
      (\<exists>vs. is_walk process_line terminate (s\<lparr>script_offset := 0\<rparr>) vs \<and> last vs = y))
   \<and> (is_walk process_line terminate (s\<lparr>script_offset := 0\<rparr>) vs \<longrightarrow>
        process_script process_line terminate s = Some (last vs)
        \<and> (\<forall>e\<in>set (butlast vs). \<not> terminate (fst e) \<and> more_lines (snd e))
        \<and> (terminate (fst (last vs)) \<or> exhausted (snd (last vs))))
   \<and> (visit process_line s_k = Some (rc_k, s_k') \<and> (terminate rc_k \<or> exhausted s_k') \<longrightarrow>
        process_script_loop process_line terminate s_k = Some (rc_k, s_k'))
   \<and> (visit process_line s_j = Some (rc_j, s_j') \<and> \<not> terminate rc_j \<and> more_lines s_j' \<longrightarrow>
        process_script_loop process_line terminate s_j =
          process_script_loop process_line terminate s_j')
   \<and> (process_script (logged v) terminate r = Some (rc, r') \<longrightarrow>
        (\<exists>vs. vs \<noteq> [] \<and> visits r' = visits r @ vs \<and> rc = snd (last vs)
              \<and> (\<forall>e\<in>set (butlast vs). \<not> terminate (snd e))
              \<and> (terminate rc
                 \<or> (\<exists>img. script r' = Some img \<and> \<not> script_offset r' < len img))))"
proof (intro conjI impI)
  show "(process_script process_line terminate s = Some y) =
      (\<exists>vs. is_walk process_line terminate (s\<lparr>script_offset := 0\<rparr>) vs \<and> last vs = y)"
    unfolding process_script_def
    using returns_has_walk [of process_line terminate "s\<lparr>script_offset := 0\<rparr>" y]
      is_walk_returns [of process_line terminate "s\<lparr>script_offset := 0\<rparr>"]
    by (auto simp add: has_walk_def)
next
  assume w: "is_walk process_line terminate (s\<lparr>script_offset := 0\<rparr>) vs"
  from is_walk_returns [OF w] show "process_script process_line terminate s = Some (last vs)"
    by (simp add: process_script_def)
  from is_walk_props [OF w]
  show "\<forall>e\<in>set (butlast vs). \<not> terminate (fst e) \<and> more_lines (snd e)"
    and "terminate (fst (last vs)) \<or> exhausted (snd (last vs))"
    by simp_all
next
  assume "visit process_line s_k = Some (rc_k, s_k') \<and> (terminate rc_k \<or> exhausted s_k')"
  then have "is_walk process_line terminate s_k [(rc_k, s_k')]" by simp
  from is_walk_returns [OF this]
  show "process_script_loop process_line terminate s_k = Some (rc_k, s_k')" by simp
next
  assume "visit process_line s_j = Some (rc_j, s_j') \<and> \<not> terminate rc_j \<and> more_lines s_j'"
  then show "process_script_loop process_line terminate s_j =
          process_script_loop process_line terminate s_j'"
    by (subst process_script_loop_visit) simp
next
  assume "process_script (logged v) terminate r = Some (rc, r')"
  from process_script_loop_visits [OF this [unfolded process_script_def], of v]
  show "\<exists>vs. vs \<noteq> [] \<and> visits r' = visits r @ vs \<and> rc = snd (last vs)
              \<and> (\<forall>e\<in>set (butlast vs). \<not> terminate (snd e))
              \<and> (terminate rc
                 \<or> (\<exists>img. script r' = Some img \<and> \<not> script_offset r' < len img))"
    by (simp add: logged_walk_def visits_ok_def visits_def)
qed

theorem process_script_status_witness:
  "is_walk (script_exec_line example_system) terminate_on_failure example_walk_start
     [(0, example_walk_start\<lparr>script_offset := 7\<rparr>), (1, example_walk_end)]
   \<and> process_script (script_exec_line example_system) terminate_on_failure
       (example_walk_start\<lparr>script_offset := 5\<rparr>) = Some (1, example_walk_end)
   \<and> process_script_loop (script_exec_line example_system) terminate_on_failure
       (example_walk_start\<lparr>script_offset := 7\<rparr>) = Some (1, example_walk_end)
   \<and> process_script_loop (script_exec_line example_system) terminate_on_failure
       example_walk_start = Some (1, example_walk_end)
   \<and> process_script_loop (script_exec_line example_system) terminate_on_failure
       (example_outer_state\<lparr>script_offset := 13\<rparr>) =
     Some (0, example_outer_state\<lparr>script_offset := 18\<rparr>)
   \<and> exhausted (example_outer_state\<lparr>script_offset := 18\<rparr>)
   \<and> process_script (logged (script_exec_line example_system)) terminate_on_failure
       example_recorded_start = Some (1, example_recorded_end)
   \<and> visits example_recorded_end = [(''#!ipxe'', 0), (''fail'', 1)]"
proof -
  let ?pl = "script_exec_line example_system"
  let ?mid = "example_walk_start\<lparr>script_offset := 7\<rparr>"
  have v0: "visit ?pl example_walk_start = Some (0, ?mid)"
    by (simp add: visit_def example_walk_start_def example_inner_def line_at_def c_string_def
        script_exec_line_def example_system_def first_char_def NL_def NUL_def)
  have v1: "visit ?pl ?mid = Some (1, example_walk_end)"
    by (simp add: visit_def example_walk_start_def example_walk_end_def example_inner_def
        line_at_def c_string_def script_exec_line_def example_system_def first_char_def
        printf_def NL_def NUL_def)
  have m: "more_lines ?mid"
    by (simp add: more_lines_def example_walk_start_def example_inner_def len_def)
  have t: "terminate_on_failure 1" "\<not> terminate_on_failure 0"
    by (simp_all add: terminate_on_failure_def)
  have w: "is_walk ?pl terminate_on_failure
      ((example_walk_start\<lparr>script_offset := 5\<rparr>)\<lparr>script_offset := 0\<rparr>)
      [(0, ?mid), (1, example_walk_end)]"
    using v0 v1 m t by (simp add: example_walk_start_def)
  have st: "visit ?pl ?mid = Some (1, example_walk_end)
      \<and> (terminate_on_failure 1 \<or> exhausted example_walk_end)"
    using v1 t by simp
  have co: "visit ?pl example_walk_start = Some (0, ?mid) \<and> \<not> terminate_on_failure 0
      \<and> more_lines ?mid"
    using v0 m t by simp
  have run: "process_script (logged ?pl) terminate_on_failure example_recorded_start =
      Some (1, example_recorded_end)"
    by (simp add: process_script_def process_script_loop_step [where img = example_inner]
        logged_def with_world_def example_recorded_start_def example_recorded_end_def
        script_exec_line_def example_system_def example_inner_def line_at_def c_string_def
        first_char_def terminate_on_failure_def printf_def len_def NL_def NUL_def)
  have ex: "exhausted (example_outer_state\<lparr>script_offset := 18\<rparr>)"
    by (simp add: exhausted_def example_outer_state_def example_outer_def len_def)
  have ve: "visit ?pl (example_outer_state\<lparr>script_offset := 13\<rparr>) =
      Some (0, example_outer_state\<lparr>script_offset := 18\<rparr>)"
    by (simp add: visit_def example_outer_state_def example_outer_def line_at_def c_string_def
        script_exec_line_def example_system_def first_char_def NL_def NUL_def)
  have last_line: "process_script_loop ?pl terminate_on_failure
      (example_outer_state\<lparr>script_offset := 13\<rparr>) =
      Some (0, example_outer_state\<lparr>script_offset := 18\<rparr>)"
    using process_script_status [where process_line = ?pl and terminate = terminate_on_failure
      and s = "example_walk_start\<lparr>script_offset := 5\<rparr>" and y = "(1, example_walk_end)"
      and vs = "[(0, ?mid), (1, example_walk_end)]"
      and s_k = "example_outer_state\<lparr>script_offset := 13\<rparr>" and rc_k = 0
      and s_k' = "example_outer_state\<lparr>script_offset := 18\<rparr>"
      and s_j = example_walk_start and rc_j = 0 and s_j' = ?mid
      and v = ?pl and r = example_recorded_start and rc = 1 and r' = example_recorded_end]
      ve ex
    by simp
  from process_script_status [where process_line = ?pl and terminate = terminate_on_failure
      and s = "example_walk_start\<lparr>script_offset := 5\<rparr>" and y = "(1, example_walk_end)"
      and vs = "[(0, ?mid), (1, example_walk_end)]"
      and s_k = ?mid and rc_k = 1 and s_k' = example_walk_end
      and s_j = example_walk_start and rc_j = 0 and s_j' = ?mid
      and v = ?pl and r = example_recorded_start and rc = 1 and r' = example_recorded_end]
    w st co run last_line ex
  show ?thesis
    by (simp add: example_walk_start_def visits_def example_recorded_end_def)
qed

subsection \<open>script_exec and the execution cursor\<close>


text \<open>
  A walk returns when every call of the line processor returns and leaves the cursor
  where the walk put it: the offset grows with every iteration.
\<close>

lemma process_script_loop_returns:
  assumes v: "\<And>line s. \<exists>rc s'. v line s = Some (rc, s') \<and> script s' = script s
                 \<and> script_offset s' = script_offset s"
    and sc: "script s = Some img"
  shows "\<exists>r. process_script_loop v t s = Some r"
  using sc
proof (induction "len img - script_offset s" arbitrary: s rule: less_induct)
  case less
  let ?line = "c_string (line_at (data img) (script_offset s))"
  let ?s1 = "s\<lparr>script_offset :=
                 script_offset s + length (line_at (data img) (script_offset s)) + 1\<rparr>"
  from v [of ?line ?s1] obtain rc s2 where
    visit: "v ?line ?s1 = Some (rc, s2)" and
    s2: "script s2 = script ?s1" "script_offset s2 = script_offset ?s1"
    by blast
  have step: "process_script_loop v t s =
      (if t rc then Some (rc, s2)
       else if script_offset s2 < len img then process_script_loop v t s2 else Some (rc, s2))"
    using visit s2 less.prems by (subst process_script_loop_step [where img = img]) simp_all
  show ?case
  proof (cases "\<not> t rc \<and> script_offset s2 < len img")
    case True
    then have "len img - script_offset s2 < len img - script_offset s"
      using s2 by (simp add: less_diff_conv)
    from less.hyps [OF this] s2 less.prems obtain r where "process_script_loop v t s2 = Some r"
      by auto
    with True step show ?thesis by simp
  next
    case False
    with step show ?thesis by auto
  qed
qed

text \<open>
  So \<open>script_exec\<close> returns whenever every command returns and leaves the cursor where
  it found it, as every command that does not jump does.
\<close>

lemma script_exec_returns:
  assumes "\<And>line s. \<exists>rc s'. system line s = Some (rc, s') \<and> script s' = script s
                 \<and> script_offset s' = script_offset s"
  shows "\<exists>r. script_exec unreg reg system img s = Some r"
proof -
  have "\<And>line s. \<exists>rc s'. script_exec_line system line s = Some (rc, s') \<and> script s' = script s
                 \<and> script_offset s' = script_offset s"
  proof -
    fix line s
    from assms [of line s] obtain rc s' where "system line s = Some (rc, s')"
      "script s' = script s" "script_offset s' = script_offset s" by blast
    then show "\<exists>rc s'. script_exec_line system line s = Some (rc, s') \<and> script s' = script s
                 \<and> script_offset s' = script_offset s"
      by (simp add: script_exec_line_def printf_def)
  qed
  from process_script_loop_returns [of "script_exec_line system", OF this]
  obtain r where "process_script (script_exec_line system) terminate_on_failure
      (s\<lparr>world := unreg img (world s), script := Some img\<rparr>) = Some r"
    unfolding process_script_def by fastforce
  then show ?thesis
    by (cases r) (simp add: script_exec_def Let_def)
qed



subsection \<open>The example script of the specification\<close>

text \<open>
  The script \<open>#!ipxe\<close>, \<open>:start\<close>, \<open>echo hi\<close>, \<open>goto start\<close> is executed line by line;
  its last line moves the cursor back to the line after the label, and the execution
  never returns.
\<close>

lemma example_lines:
  "line_at (data example_script) 0 = ''#!ipxe''"
  "line_at (data example_script) 7 = '':start''"
  "line_at (data example_script) 14 = ''echo hi''"
  "line_at (data example_script) 22 = ''goto start''"
  by (simp_all add: line_at_def example_script_def NL_def)

lemma example_script_lines:
  "script_lines (data example_script) =
    [(0, ''#!ipxe'')] @ (7, '':start'') # [(14, ''echo hi''), (22, ''goto start'')]"
  by (simp add: script_lines_def lines_at.simps line_at_def example_script_def NL_def)

lemma example_goto_start:
  assumes "script s = Some example_script"
  shows "goto_exec example_parse_options [''goto'', ''start''] s =
           Some (0, s\<lparr>goto_label := ''start'', script_offset := 14\<rparr>)"
proof -
  let ?s = "s\<lparr>goto_label := ''start''\<rparr>"
  have "walk_result (label_status ''start'') terminate_on_success (?s\<lparr>script_offset := 0\<rparr>)
          (script_lines (data example_script)) =
        (0, ?s\<lparr>script_offset := 0\<rparr>\<lparr>script_offset := 7 + length '':start'' + 1\<rparr>)"
    by (rule walk_result_found [OF example_script_lines])
      (simp_all add: is_label_line_def c_string_def NUL_def)
  then have "process_script goto_find_label terminate_on_success ?s =
      Some (0, ?s\<lparr>script_offset := 14\<rparr>)"
    using assms by (simp add: process_script_goto_find_label [where img = example_script])
  then show ?thesis
    using assms by (simp add: goto_exec_def example_parse_options_def)
qed

lemma example_visit:
  assumes "script s = Some example_script"
  shows "script_exec_line example_goto_system ''#!ipxe'' s = Some (0, s)"
    and "script_exec_line example_goto_system '':start'' s = Some (0, s)"
    and "script_exec_line example_goto_system ''echo hi'' s = Some (0, s)"
    and "script_exec_line example_goto_system ''goto start'' s =
           Some (0, s\<lparr>goto_label := ''start'', script_offset := 14\<rparr>)"
  using example_goto_start [OF assms]
  by (simp_all add: script_exec_line_def example_goto_system_def first_char_def)

lemma example_len: "len example_script = 33"
  by (simp add: len_def example_script_def)

lemma example_walk_never_returns:
  assumes "process_script_loop pl0 terminate0 s0 = Some y0"
  shows "never_returns pl0 terminate0 s0 y0"
  using assms
proof (rule process_script_loop.raw_induct [rotated, where P = never_returns])
  fix loop pl terminate s y
  assume IH: "\<And>pl terminate s y. loop pl terminate s = Some y \<Longrightarrow> never_returns pl terminate s y"
    and hyps: "(case script s of
        None \<Rightarrow> None
      | Some img \<Rightarrow>
          (let eol = memchr_user (data img) (script_offset s) NL
                       (len img - script_offset s);
               eol = (if eol < 0 then int (len img) else eol);
               n = nat (eol - int (script_offset s));
               cmdbuf = copy_from_user (data img) (script_offset s) n @ [NUL];
               s = s\<lparr>script_offset := script_offset s + (n + 1)\<rparr>
           in case pl (c_string cmdbuf) s of
                None \<Rightarrow> None
              | Some (rc, s) \<Rightarrow>
                  if terminate rc then Some (rc, s)
                  else (case script s of
                          None \<Rightarrow> None
                        | Some img \<Rightarrow>
                            if script_offset s < len img
                            then loop pl terminate s
                            else Some (rc, s)))) = Some y"
  show "never_returns pl terminate s y"
    unfolding never_returns_def
  proof
    assume a: "pl = script_exec_line example_goto_system \<and> terminate = terminate_on_failure
         \<and> script s = Some example_script \<and> script_offset s \<in> {0, 7, 14, 22}"
    then have img: "script s = Some example_script" by simp
    from a consider "script_offset s = 0" | "script_offset s = 7" | "script_offset s = 14"
      | "script_offset s = 22" by auto
    then show False
    proof cases
      case 1
      have seven: "Suc (Suc (Suc (Suc (Suc (Suc (Suc 0)))))) = 7" by simp
      from 1 hyps a have "loop pl terminate (s\<lparr>script_offset := 7\<rparr>) = Some y"
        unfolding loop_body [OF img]
        by (simp add: example_lines example_visit example_len c_string_def NUL_def
            terminate_on_failure_def seven)
      from IH [OF this] a show False by (simp add: never_returns_def)
    next
      case 2
      with hyps a have "loop pl terminate (s\<lparr>script_offset := 14\<rparr>) = Some y"
        unfolding loop_body [OF img]
        by (simp add: example_lines example_visit example_len c_string_def NUL_def
            terminate_on_failure_def)
      from IH [OF this] a show False by (simp add: never_returns_def)
    next
      case 3
      with hyps a have "loop pl terminate (s\<lparr>script_offset := 22\<rparr>) = Some y"
        unfolding loop_body [OF img]
        by (simp add: example_lines example_visit example_len c_string_def NUL_def
            terminate_on_failure_def)
      from IH [OF this] a show False by (simp add: never_returns_def)
    next
      case 4
      with hyps a have "loop pl terminate (s\<lparr>goto_label := ''start'', script_offset := 14\<rparr>) = Some y"
        unfolding loop_body [OF img]
        by (simp add: example_lines example_visit example_len c_string_def NUL_def
            terminate_on_failure_def)
      from IH [OF this] a show False by (simp add: never_returns_def)
    qed
  qed
qed

lemma example_script_never_returns:
  "script_exec unreg reg example_goto_system example_script s = None"
proof (cases "process_script (script_exec_line example_goto_system) terminate_on_failure
    (s\<lparr>world := unreg example_script (world s), script := Some example_script\<rparr>)")
  case None
  then show ?thesis by (simp add: script_exec_def Let_def)
next
  case (Some y)
  from example_walk_never_returns [OF Some [unfolded process_script_def]]
  show ?thesis by (simp add: never_returns_def)
qed

end
